theory Spec2Isabelle
  imports Complex_Main "HOL-Library.Word"
begin

unbundle bit_operations_syntax

section \<open>Variable-length integer codec (detail/varint.hpp)\<close>

type_synonym byte = "8 word"
type_synonym uint64 = "64 word"

text \<open>
  \<^verbatim>\<open>varint_size\<close>: the number of base-128 groups of a value. The loop divides an
  unsigned 64-bit value by 128 while it exceeds 127.
\<close>

function varint_size :: "uint64 \<Rightarrow> nat" where
  "varint_size v = (if v > 127 then Suc (varint_size (v div 128)) else 1)"
  by pat_completeness auto
termination
proof (relation "measure unat")
  show "wf (measure unat)" by simp
next
  fix v :: uint64
  assume "127 < v"
  then have "0 < unat v" by (simp add: word_less_nat_alt)
  then have "unat v div 128 < unat v" by simp
  then show "(v div 128, v) \<in> measure unat" by (simp add: unat_div)
qed

text \<open>
  \<^verbatim>\<open>varint_write\<close>: the bytes stored at \<^verbatim>\<open>dest\<close>, in order. A non-final group is
  stored as \<^verbatim>\<open>value & 0x7f\<close>; the final group is the remaining value. The function
  returns the number of bytes stored.
\<close>

function varint_write_bytes :: "uint64 \<Rightarrow> byte list" where
  "varint_write_bytes v =
     (if v > 127 then ucast (v AND 0x7f) # varint_write_bytes (drop_bit 7 v)
      else [ucast v])"
  by pat_completeness auto
termination
proof (relation "measure unat")
  show "wf (measure unat)" by simp
next
  fix v :: uint64
  assume "127 < v"
  then have "0 < unat v" by (simp add: word_less_nat_alt)
  then have "unat v div 2 ^ 7 < unat v" by simp
  then show "(drop_bit 7 v, v) \<in> measure unat"
    by (simp add: drop_bit_eq_div unat_div)
qed

definition varint_write :: "uint64 \<Rightarrow> byte list \<times> nat" where
  "varint_write v = (varint_write_bytes v, length (varint_write_bytes v))"

text \<open>
  \<^verbatim>\<open>varint_read\<close>: reads groups from the bytes at \<^verbatim>\<open>src\<close> while the byte read
  exceeds 127, then one final byte. The result is the decoded value and the number
  of bytes consumed; \<open>None\<close> when the loop runs past the bytes it is given.
\<close>

fun varint_read_loop :: "byte list \<Rightarrow> uint64 \<Rightarrow> uint64 \<Rightarrow> nat \<Rightarrow> (uint64 \<times> nat) option" where
  "varint_read_loop [] val factor n = None"
| "varint_read_loop (c # cs) val factor n =
     (if c > 127
      then varint_read_loop cs (val + ucast (c AND 0x7f) * factor) (factor * 128) (Suc n)
      else Some (val + ucast c * factor, Suc n))"

definition varint_read :: "byte list \<Rightarrow> (uint64 \<times> nat) option" where
  "varint_read src = varint_read_loop src 0 1 0"


section \<open>Memory: entries, tables and the allocator\<close>

text \<open>
  The container is built from raw pointers. A pointer to an \<^verbatim>\<open>element\<close> is null, the
  address of an allocated entry, or the address of the \<^verbatim>\<open>end_element\<close> hook of a
  table (\<^verbatim>\<open>table::end()\<close> is a \<^verbatim>\<open>reinterpret_cast\<close> of that hook's address).
\<close>

type_synonym addr = nat

datatype ptr = Null | Elem addr | End addr

record list_hook =
  prev :: ptr
  nxt :: ptr

text \<open>
  An entry: its two order-list links, its bucket-chain link, the payload (\<^verbatim>\<open>v_\<close>), and the bytes
  that follow the \<^verbatim>\<open>element\<close> header in the same allocation (the varint length
  prefix, the key bytes, one NUL).
\<close>

record 'v element = list_hook +
  local_next :: ptr
  payload :: 'v
  tail :: "byte list"

text \<open>
  \<^verbatim>\<open>struct object::table\<close>: the header and, in the same allocation, the bucket array.
\<close>

record table =
  tsize :: nat
  tbucket_count :: nat
  head :: ptr
  end_element :: list_hook
  buckets :: "ptr list"

text \<open>
  The memory obtained through storage pointers. \<open>fresh\<close> is the next address handed
  out, so every address in use is below it. \<open>budget\<close> is how many more allocations
  succeed before the allocator signals failure (\<open>None\<close>: it never fails). The
  byte size and alignment handed to \<^verbatim>\<open>allocate\<close> and \<^verbatim>\<open>deallocate\<close> are not
  modelled: a block is released whatever size the caller states.
\<close>

record 'v memory =
  elements :: "addr \<Rightarrow> 'v element option"
  tables :: "addr \<Rightarrow> table option"
  fresh :: addr
  budget :: "nat option"

text \<open>
  \<^verbatim>\<open>class object\<close>: the storage pointer (compared by identity), the table pointer
  (\<open>None\<close> is \<^verbatim>\<open>nullptr\<close>) and the maximum load factor, the members \<^verbatim>\<open>sp_\<close>,
  \<^verbatim>\<open>tab_\<close> and \<^verbatim>\<open>mf_\<close>. The \<^verbatim>\<open>float\<close> load factor
  is a rational here and its arithmetic is exact.
\<close>

record object =
  sp :: nat
  tab :: "addr option"
  mf :: rat

record 'v state =
  this :: object
  mem :: "'v memory"

text \<open>
  What stops an operation: the two exceptions the code throws, a failed
  \<^verbatim>\<open>BOOST_ASSERT\<close>, behaviour the language leaves undefined (a null or dangling
  dereference, an out-of-range index or conversion), and a loop that does not end.
\<close>

datatype fault = bad_alloc | out_of_range | assertion | undefined_behaviour | nontermination

definition is_exception :: "fault \<Rightarrow> bool" where
  "is_exception e = (e = bad_alloc \<or> e = out_of_range)"

type_synonym ('v, 'a) op = "'v state \<Rightarrow> (fault + 'a) \<times> 'v state"

definition return :: "'a \<Rightarrow> ('v, 'a) op" where
  "return x s = (Inr x, s)"

definition throw :: "fault \<Rightarrow> ('v, 'a) op" where
  "throw e s = (Inl e, s)"

definition bind :: "('v, 'a) op \<Rightarrow> ('a \<Rightarrow> ('v, 'b) op) \<Rightarrow> ('v, 'b) op" where
  "bind f g s = (case f s of (Inl e, s') \<Rightarrow> (Inl e, s') | (Inr x, s') \<Rightarrow> g x s')"

text \<open>
  A scope guard: when \<open>f\<close> leaves by an exception, the destructor \<open>h\<close> runs during
  unwinding and the exception continues.
\<close>

definition unwind :: "('v, 'a) op \<Rightarrow> ('v, unit) op \<Rightarrow> ('v, 'a) op" where
  "unwind f h s =
     (case f s of
        (Inr x, s') \<Rightarrow> (Inr x, s')
      | (Inl e, s') \<Rightarrow>
          if is_exception e
          then (case h s' of (Inl e', s'') \<Rightarrow> (Inl e', s'') | (Inr u, s'') \<Rightarrow> (Inl e, s''))
          else (Inl e, s'))"

definition get_this :: "('v, object) op" where
  "get_this s = (Inr (this s), s)"

definition get_mem :: "('v, 'v memory) op" where
  "get_mem s = (Inr (mem s), s)"

definition set_mem :: "'v memory \<Rightarrow> ('v, unit) op" where
  "set_mem m s = (Inr (), s\<lparr>mem := m\<rparr>)"

definition set_tab :: "addr option \<Rightarrow> ('v, unit) op" where
  "set_tab t s = (Inr (), s\<lparr>this := (this s)\<lparr>tab := t\<rparr>\<rparr>)"

definition set_mf :: "rat \<Rightarrow> ('v, unit) op" where
  "set_mf f s = (Inr (), s\<lparr>this := (this s)\<lparr>mf := f\<rparr>\<rparr>)"

text \<open>The bound on loop iterations: a walk over distinct addresses in use is shorter.\<close>

definition fuel :: "('v, nat) op" where
  "fuel s = (Inr (Suc (fresh (mem s))), s)"

subsection \<open>The allocator\<close>

definition allocate :: "('v, addr) op" where
  "allocate s =
     (let m = mem s in
      if budget m = Some 0 then (Inl bad_alloc, s)
      else (Inr (fresh m),
            s\<lparr>mem := m\<lparr>fresh := Suc (fresh m),
                         budget := map_option (\<lambda>k. k - 1) (budget m)\<rparr>\<rparr>))"

definition load_element :: "ptr \<Rightarrow> ('v, 'v element) op" where
  "load_element p s =
     (case p of
        Elem a \<Rightarrow> (case elements (mem s) a of
                     Some e \<Rightarrow> (Inr e, s)
                   | None \<Rightarrow> (Inl undefined_behaviour, s))
      | _ \<Rightarrow> (Inl undefined_behaviour, s))"

definition store_element :: "addr \<Rightarrow> 'v element \<Rightarrow> ('v, unit) op" where
  "store_element a e s =
     (Inr (), s\<lparr>mem := (mem s)\<lparr>elements := (elements (mem s))(a \<mapsto> e)\<rparr>\<rparr>)"

definition load_table :: "addr \<Rightarrow> ('v, table) op" where
  "load_table t s =
     (case tables (mem s) t of
        Some tb \<Rightarrow> (Inr tb, s)
      | None \<Rightarrow> (Inl undefined_behaviour, s))"

definition store_table :: "addr \<Rightarrow> table \<Rightarrow> ('v, unit) op" where
  "store_table t tb s =
     (Inr (), s\<lparr>mem := (mem s)\<lparr>tables := (tables (mem s))(t \<mapsto> tb)\<rparr>\<rparr>)"

text \<open>\<^verbatim>\<open>deallocate\<close> of a block that is not allocated is undefined.\<close>

definition deallocate_element :: "ptr \<Rightarrow> ('v, unit) op" where
  "deallocate_element p =
     bind (load_element p) (\<lambda>e s.
       case p of
         Elem a \<Rightarrow> (Inr (), s\<lparr>mem := (mem s)\<lparr>elements := (elements (mem s))(a := None)\<rparr>\<rparr>)
       | _ \<Rightarrow> (Inl undefined_behaviour, s))"

definition deallocate_table :: "addr \<Rightarrow> ('v, unit) op" where
  "deallocate_table t =
     bind (load_table t) (\<lambda>tb s.
       (Inr (), s\<lparr>mem := (mem s)\<lparr>tables := (tables (mem s))(t := None)\<rparr>\<rparr>))"

subsection \<open>Reading and writing through an \<^verbatim>\<open>element*\<close>\<close>

definition get_hook :: "ptr \<Rightarrow> ('v, list_hook) op" where
  "get_hook p =
     (case p of
        Null \<Rightarrow> throw undefined_behaviour
      | Elem a \<Rightarrow> bind (load_element p) (\<lambda>e. return \<lparr>prev = prev e, nxt = nxt e\<rparr>)
      | End t \<Rightarrow> bind (load_table t) (\<lambda>tb. return (end_element tb)))"

definition get_next :: "ptr \<Rightarrow> ('v, ptr) op" where
  "get_next p = bind (get_hook p) (\<lambda>h. return (nxt h))"

definition get_prev :: "ptr \<Rightarrow> ('v, ptr) op" where
  "get_prev p = bind (get_hook p) (\<lambda>h. return (prev h))"

definition set_next :: "ptr \<Rightarrow> ptr \<Rightarrow> ('v, unit) op" where
  "set_next p q =
     (case p of
        Null \<Rightarrow> throw undefined_behaviour
      | Elem a \<Rightarrow> bind (load_element p) (\<lambda>e. store_element a (e\<lparr>nxt := q\<rparr>))
      | End t \<Rightarrow> bind (load_table t) (\<lambda>tb.
                  store_table t (tb\<lparr>end_element := (end_element tb)\<lparr>nxt := q\<rparr>\<rparr>)))"

definition set_prev :: "ptr \<Rightarrow> ptr \<Rightarrow> ('v, unit) op" where
  "set_prev p q =
     (case p of
        Null \<Rightarrow> throw undefined_behaviour
      | Elem a \<Rightarrow> bind (load_element p) (\<lambda>e. store_element a (e\<lparr>prev := q\<rparr>))
      | End t \<Rightarrow> bind (load_table t) (\<lambda>tb.
                  store_table t (tb\<lparr>end_element := (end_element tb)\<lparr>prev := q\<rparr>\<rparr>)))"

text \<open>
  \<^verbatim>\<open>local_next\<close>, the payload and the key bytes exist in entries only: the end hook
  of a table is a bare \<^verbatim>\<open>list_hook\<close>.
\<close>

definition get_local_next :: "ptr \<Rightarrow> ('v, ptr) op" where
  "get_local_next p = bind (load_element p) (\<lambda>e. return (local_next e))"

definition set_local_next :: "ptr \<Rightarrow> ptr \<Rightarrow> ('v, unit) op" where
  "set_local_next p q =
     bind (load_element p) (\<lambda>e.
       case p of
         Elem a \<Rightarrow> store_element a (e\<lparr>local_next := q\<rparr>)
       | _ \<Rightarrow> throw undefined_behaviour)"


section \<open>Entries and tables\<close>

text \<open>
  \<^verbatim>\<open>element::key\<close>: decode the varint at the first byte after the header; the key is
  the view that starts after the bytes consumed and has the decoded length.
\<close>

definition element_key :: "ptr \<Rightarrow> ('v, byte list) op" where
  "element_key p =
     bind (load_element p) (\<lambda>e.
       case varint_read (tail e) of
         None \<Rightarrow> throw undefined_behaviour
       | Some (len, used) \<Rightarrow>
           if used + unat len \<le> length (tail e)
           then return (take (unat len) (drop used (tail e)))
           else throw undefined_behaviour)"

text \<open>
  \<^verbatim>\<open>element::destroy\<close>: reads the key length for the byte count, runs the destructor
  and returns the block to the storage.
\<close>

definition element_destroy :: "ptr \<Rightarrow> ('v, unit) op" where
  "element_destroy p = bind (element_key p) (\<lambda>k. deallocate_element p)"

text \<open>
  \<^verbatim>\<open>table::construct\<close>: the constructor makes \<^verbatim>\<open>head\<close> the end hook and nulls the
  hook's links; every bucket starts as \<^verbatim>\<open>end()\<close>.
\<close>

definition table_construct :: "nat \<Rightarrow> ('v, addr) op" where
  "table_construct n =
     bind allocate (\<lambda>t.
     bind (store_table t \<lparr>tsize = 0, tbucket_count = n, head = End t,
                          end_element = \<lparr>prev = Null, nxt = Null\<rparr>,
                          buckets = replicate n (End t)\<rparr>) (\<lambda>u.
     return t))"

definition table_destroy :: "addr \<Rightarrow> ('v, unit) op" where
  "table_destroy t = deallocate_table t"

definition modify_table :: "addr \<Rightarrow> (table \<Rightarrow> table) \<Rightarrow> ('v, unit) op" where
  "modify_table t f = bind (load_table t) (\<lambda>tb. store_table t (f tb))"

text \<open>\<^verbatim>\<open>table::bucket(n)\<close>, read and written; an index past the array is undefined.\<close>

definition get_bucket :: "addr \<Rightarrow> nat \<Rightarrow> ('v, ptr) op" where
  "get_bucket t n =
     bind (load_table t) (\<lambda>tb.
       if n < length (buckets tb) then return (buckets tb ! n)
       else throw undefined_behaviour)"

definition set_bucket :: "addr \<Rightarrow> nat \<Rightarrow> ptr \<Rightarrow> ('v, unit) op" where
  "set_bucket t n p =
     bind (load_table t) (\<lambda>tb.
       if n < length (buckets tb) then store_table t (tb\<lparr>buckets := (buckets tb)[n := p]\<rparr>)
       else throw undefined_behaviour)"

section \<open>Hasher\<close>

text \<open>
  The FNV-style hash of a build whose \<^verbatim>\<open>std::size_t\<close> has 64 bits
  (\<^verbatim>\<open>init(std::true_type)\<close>). Each \<^verbatim>\<open>char\<close> is converted to \<^verbatim>\<open>std::size_t\<close> before
  the exclusive or; plain \<^verbatim>\<open>char\<close> is taken as signed.
\<close>

definition hasher_init :: "uint64 \<times> uint64" where
  "hasher_init = (0x100000001B3, 0xcbf29ce484222325)"

definition hasher :: "byte list \<Rightarrow> uint64" where
  "hasher k = (case hasher_init of (prime, hash) \<Rightarrow>
                 foldl (\<lambda>hash p. (scast p XOR hash) * prime) hash k)"

definition constrain_hash :: "uint64 \<Rightarrow> nat \<Rightarrow> ('v, nat) op" where
  "constrain_hash hash bucket_count =
     (if bucket_count = 0 then throw undefined_behaviour
      else return (unat hash mod bucket_count))"

section \<open>Prime sequence\<close>

text \<open>\<^verbatim>\<open>detail::get_primes(std::true_type)\<close>, the table of the 64-bit build.\<close>

definition get_primes :: "nat list" where
  "get_primes =
     [0,
      3, 7,
      11, 17,
      29, 53,
      97, 193,
      389, 769,
      1543, 3079,
      6151, 12289,
      24593, 49157,
      98317, 196613,
      393241, 786433,
      1572869, 3145739,
      6291469, 12582917,
      25165843, 50331653,
      100663319, 201326611,
      402653189, 805306457,
      1610612741, 3221225473,
      6442450939, 12884901893,
      25769803751, 51539607551,
      103079215111, 206158430209,
      412316860441, 824633720831,
      1649267441651, 3298534883309,
      6597069766657, 13194139533299,
      26388279066623, 52776558133303,
      105553116266489, 211106232532969,
      422212465066001, 844424930131963,
      1688849860263953, 3377699720527861,
      6755399441055731, 13510798882111483,
      27021597764222939, 54043195528445957,
      108086391056891903, 216172782113783843,
      432345564227567621, 864691128455135207,
      1729382256910270481, 3458764513820540933,
      6917529027641081903, 13835058055282163729,
      18446744073709551557, 18446744073709551615]"

text \<open>
  \<^verbatim>\<open>*std::lower_bound(primes.begin(), primes.end(), n)\<close>: the first entry that is not
  below \<open>n\<close>; dereferencing \<^verbatim>\<open>end()\<close> when there is none is undefined.
\<close>

definition lower_bound_deref :: "nat list \<Rightarrow> nat \<Rightarrow> ('v, nat) op" where
  "lower_bound_deref ps n =
     (case List.find (\<lambda>p. n \<le> p) ps of
        Some p \<Rightarrow> return p
      | None \<Rightarrow> throw undefined_behaviour)"

text \<open>
  \<^verbatim>\<open>static_cast<size_type>(std::ceil(x / f))\<close>. Division by zero gives an infinity or
  a NaN; converting these, a negative value or a value of \<open>2 ^ 64\<close> or more to
  \<^verbatim>\<open>size_type\<close> is undefined.
\<close>

definition ceil_quotient :: "rat \<Rightarrow> rat \<Rightarrow> ('v, nat) op" where
  "ceil_quotient x f =
     (if f = 0 then throw undefined_behaviour
      else if \<lceil>x / f\<rceil> < 0 \<or> 2 ^ 64 \<le> \<lceil>x / f\<rceil> then throw undefined_behaviour
      else return (nat \<lceil>x / f\<rceil>))"

section \<open>The container: observers\<close>

definition object_begin :: "('v, ptr) op" where
  "object_begin =
     bind get_this (\<lambda>ob.
       case tab ob of
         None \<Rightarrow> return Null
       | Some t \<Rightarrow> bind (load_table t) (\<lambda>tb. return (head tb)))"

definition object_end :: "('v, ptr) op" where
  "object_end =
     bind get_this (\<lambda>ob.
       case tab ob of
         None \<Rightarrow> return Null
       | Some t \<Rightarrow> return (End t))"

definition object_empty :: "('v, bool) op" where
  "object_empty =
     bind get_this (\<lambda>ob.
       case tab ob of
         None \<Rightarrow> return True
       | Some t \<Rightarrow> bind (load_table t) (\<lambda>tb. return (tsize tb = 0)))"

definition object_size :: "('v, nat) op" where
  "object_size =
     bind get_this (\<lambda>ob.
       case tab ob of
         None \<Rightarrow> return 0
       | Some t \<Rightarrow> bind (load_table t) (\<lambda>tb. return (tsize tb)))"

definition object_bucket_count :: "('v, nat) op" where
  "object_bucket_count =
     bind get_this (\<lambda>ob.
       case tab ob of
         None \<Rightarrow> return 0
       | Some t \<Rightarrow> bind (load_table t) (\<lambda>tb. return (tbucket_count tb)))"

definition object_max_bucket_count :: "nat" where
  "object_max_bucket_count = last get_primes"

text \<open>
  Modelled from the spec: the getter \<^verbatim>\<open>max_load_factor()\<close> is defined in
  \<^verbatim>\<open>object.hpp\<close>, which is not among the sources; it returns the configured maximum
  load factor.
\<close>

definition object_max_load_factor :: "('v, rat) op" where
  "object_max_load_factor = bind get_this (\<lambda>ob. return (mf ob))"

text \<open>The table of a container that must have one (\<^verbatim>\<open>BOOST_ASSERT(tab_)\<close>).\<close>

definition assert_tab :: "('v, addr) op" where
  "assert_tab =
     bind get_this (\<lambda>ob.
       case tab ob of None \<Rightarrow> throw assertion | Some t \<Rightarrow> return t)"

text \<open>The table reached through \<^verbatim>\<open>tab_->\<close> with no check: null is undefined.\<close>

definition deref_tab :: "('v, addr) op" where
  "deref_tab =
     bind get_this (\<lambda>ob.
       case tab ob of None \<Rightarrow> throw undefined_behaviour | Some t \<Rightarrow> return t)"

definition object_bucket :: "byte list \<Rightarrow> ('v, nat) op" where
  "object_bucket k =
     bind assert_tab (\<lambda>t.
     bind object_bucket_count (\<lambda>bc.
     constrain_hash (hasher k) bc))"

text \<open>
  \<^verbatim>\<open>find_impl\<close>: the entry found (or null) and the hash of the key. The loop walks
  the bucket chain until \<^verbatim>\<open>tab_->end()\<close>.
\<close>

primrec find_loop :: "nat \<Rightarrow> byte list \<Rightarrow> ptr \<Rightarrow> ptr \<Rightarrow> ('v, ptr) op" where
  "find_loop 0 k en e = throw nontermination"
| "find_loop (Suc n) k en e =
     (if e \<noteq> en
      then bind (element_key e) (\<lambda>k'.
             if k = k' then return e
             else bind (get_local_next e) (\<lambda>e'. find_loop n k en e'))
      else return Null)"

definition object_find_impl :: "byte list \<Rightarrow> ('v, ptr \<times> uint64) op" where
  "object_find_impl k =
     bind object_bucket_count (\<lambda>bc.
       if bc = 0 then return (Null, hasher k)
       else
         bind deref_tab (\<lambda>t.
         bind (constrain_hash (hasher k) bc) (\<lambda>bn.
         bind (get_bucket t bn) (\<lambda>e.
         bind fuel (\<lambda>n.
         bind (find_loop n k (End t) e) (\<lambda>r.
         return (r, hasher k)))))))"

definition object_find :: "byte list \<Rightarrow> ('v, ptr) op" where
  "object_find k =
     bind (object_find_impl k) (\<lambda>r.
       if fst r \<noteq> Null then return (fst r) else object_end)"

definition object_count :: "byte list \<Rightarrow> ('v, nat) op" where
  "object_count k =
     bind (object_find k) (\<lambda>it.
     bind object_end (\<lambda>en.
       if it = en then return 0 else return 1))"

definition object_contains :: "byte list \<Rightarrow> ('v, bool) op" where
  "object_contains k =
     bind (object_find k) (\<lambda>it.
     bind object_end (\<lambda>en.
       return (it \<noteq> en)))"

text \<open>\<^verbatim>\<open>at\<close>: the payload of the entry found, \<^verbatim>\<open>std::out_of_range\<close> when there is none.\<close>

definition object_at :: "byte list \<Rightarrow> ('v, 'v) op" where
  "object_at k =
     bind (object_find k) (\<lambda>it.
     bind object_end (\<lambda>en.
       if it = en then throw out_of_range
       else bind (load_element it) (\<lambda>e. return (payload e))))"


section \<open>Hash policy\<close>

text \<open>
  \<^verbatim>\<open>load_factor\<close>. Every table that \<^verbatim>\<open>rehash\<close> constructs has at least three
  buckets; the quotient by zero buckets would be an infinity or a NaN, which a rational
  does not hold, and is reported as a fault.
\<close>

definition object_load_factor :: "('v, rat) op" where
  "object_load_factor =
     bind get_this (\<lambda>ob.
       case tab ob of
         None \<Rightarrow> return 0
       | Some t \<Rightarrow>
           bind object_size (\<lambda>sz.
           bind object_bucket_count (\<lambda>bc.
             if bc = 0 then throw undefined_behaviour
             else return (of_nat sz / of_nat bc))))"

text \<open>
  The loop at the end of \<^verbatim>\<open>rehash\<close>: every entry on the order list is pushed to the
  front of the chain of the bucket that \<^verbatim>\<open>bucket(e->key())\<close> names.
\<close>

primrec rehash_loop :: "nat \<Rightarrow> addr \<Rightarrow> ptr \<Rightarrow> ('v, unit) op" where
  "rehash_loop 0 t e = throw nontermination"
| "rehash_loop (Suc n) t e =
     (if e \<noteq> End t
      then bind (element_key e) (\<lambda>k.
           bind (object_bucket k) (\<lambda>bn.
           bind (get_bucket t bn) (\<lambda>h.
           bind (set_local_next e h) (\<lambda>u.
           bind (set_bucket t bn e) (\<lambda>u.
           bind (get_next e) (\<lambda>e'.
           rehash_loop n t e'))))))
      else return ())"

text \<open>
  The hand-over of the order list in \<^verbatim>\<open>rehash\<close>: the new table \<open>t\<close> takes the head
  pointer of the old table \<open>old\<close> and the \<^verbatim>\<open>prev\<close> link of its end hook, and the last
  entry is made to point at the new end hook; an empty list leaves the new table
  empty. \<open>tbo\<close> is the old table's header.
\<close>

definition rehash_transplant :: "addr \<Rightarrow> addr \<Rightarrow> table \<Rightarrow> ('v, unit) op" where
  "rehash_transplant t old tbo =
     (if head tbo \<noteq> End old
      then bind (modify_table t (\<lambda>tb. tb\<lparr>head := head tbo\<rparr>)) (\<lambda>u.
           bind (get_prev (End old)) (\<lambda>p.
           bind (set_prev (End t) p) (\<lambda>u.
           bind (get_prev (End t)) (\<lambda>q.
           set_next q (End t)))))
      else modify_table t (\<lambda>tb. tb\<lparr>head := End t\<rparr>))"

text \<open>
  \<^verbatim>\<open>rehash\<close> from the comment \<^verbatim>\<open>// create new buckets\<close> on: the new table is
  constructed first; when there is an old table, its size and order list are taken
  over and it is destroyed; the entries are threaded onto the new buckets.
\<close>

definition rehash_create :: "nat \<Rightarrow> ('v, unit) op" where
  "rehash_create n =
     bind (table_construct n) (\<lambda>t.
     bind get_this (\<lambda>ob.
     bind (case tab ob of
             None \<Rightarrow> return ()
           | Some old \<Rightarrow>
               bind (load_table old) (\<lambda>tbo.
               bind (modify_table t (\<lambda>tb. tb\<lparr>tsize := tsize tbo\<rparr>)) (\<lambda>u.
               bind (rehash_transplant t old tbo) (\<lambda>u.
               table_destroy old)))) (\<lambda>u.
     bind (set_tab (Some t)) (\<lambda>u.
     bind (load_table t) (\<lambda>tb.
     bind fuel (\<lambda>n.
     rehash_loop n t (head tb)))))))"

text \<open>
  \<^verbatim>\<open>rehash(n)\<close>: snap to the table; nothing to do when the count is unchanged; when
  fewer buckets are requested, raise the request to what the load factor needs and
  return unless that exceeds the current count.
\<close>

definition object_rehash :: "nat \<Rightarrow> ('v, unit) op" where
  "object_rehash n0 =
     bind (lower_bound_deref get_primes n0) (\<lambda>n.
     bind object_bucket_count (\<lambda>bc.
       if n = bc then return ()
       else if n < bc
       then bind object_size (\<lambda>sz.
            bind object_max_load_factor (\<lambda>f.
            bind (ceil_quotient (of_nat sz) f) (\<lambda>c.
            bind (lower_bound_deref get_primes c) (\<lambda>p.
              if max n p \<le> bc then return ()
              else rehash_create (max n p)))))
       else rehash_create n))"

definition object_reserve :: "nat \<Rightarrow> ('v, unit) op" where
  "object_reserve n =
     bind object_max_load_factor (\<lambda>f.
     bind (ceil_quotient (of_nat n) f) (\<lambda>c.
     object_rehash c))"

definition object_set_max_load_factor :: "rat \<Rightarrow> ('v, unit) op" where
  "object_set_max_load_factor f =
     bind (set_mf f) (\<lambda>u.
     bind object_load_factor (\<lambda>lf.
       if lf > f then object_rehash 0 else return ()))"

section \<open>Linking and unlinking entries\<close>

text \<open>
  \<^verbatim>\<open>allocate_impl\<close>: the block is allocated, the payload builder runs on it (when it
  throws, the \<^verbatim>\<open>cleanup\<close> guard returns the raw block, which holds no entry yet), and
  the length prefix, the key bytes and a NUL are written after the header. The links
  of the new entry are not yet set; they are null here.
\<close>

definition object_allocate_impl :: "byte list \<Rightarrow> fault + 'v \<Rightarrow> ('v, ptr) op" where
  "object_allocate_impl k place_new =
     bind allocate (\<lambda>a.
       case place_new of
         Inl x \<Rightarrow> throw x
       | Inr v \<Rightarrow>
           bind (store_element a
                   \<lparr>prev = Null, nxt = Null, local_next = Null, payload = v,
                    tail = fst (varint_write (of_nat (length k))) @ k @ [0]\<rparr>) (\<lambda>u.
           return (Elem a)))"

text \<open>
  The first part of the private \<^verbatim>\<open>insert(before, hash, e)\<close>, under the comment
  \<^verbatim>\<open>// rehash if necessary\<close>: the result is \<open>before\<close>, refreshed to the new
  \<^verbatim>\<open>end()\<close> when it was the old one.
\<close>

definition insert_grow :: "ptr \<Rightarrow> ('v, ptr) op" where
  "insert_grow before_e0 =
     bind object_size (\<lambda>sz.
     bind object_bucket_count (\<lambda>bc.
     bind object_max_load_factor (\<lambda>f.
       if of_nat (sz + 1) > of_nat bc * f
       then bind object_end (\<lambda>en.
            bind (ceil_quotient (of_nat (sz + 1)) f) (\<lambda>c.
            bind (object_rehash c) (\<lambda>u.
              if before_e0 = en then object_end else return before_e0)))
       else return before_e0)))"

text \<open>
  The second part, under \<^verbatim>\<open>// perform insert\<close>, up to the increment of the size:
  \<open>e\<close> is pushed onto the chain of its bucket and linked into the order list of
  table \<open>t\<close> before \<open>before_e\<close>.
\<close>

definition insert_link :: "addr \<Rightarrow> ptr \<Rightarrow> uint64 \<Rightarrow> ptr \<Rightarrow> ('v, unit) op" where
  "insert_link t before_e hash e =
     bind (load_table t) (\<lambda>tb.
     bind (constrain_hash hash (tbucket_count tb)) (\<lambda>bn.
     bind (get_bucket t bn) (\<lambda>h.
     bind (set_local_next e h) (\<lambda>u.
     bind (set_bucket t bn e) (\<lambda>u.
     bind (load_table t) (\<lambda>tb.
       if head tb = End t
       then if before_e \<noteq> End t then throw assertion
            else bind (modify_table t (\<lambda>tb. tb\<lparr>head := e\<rparr>)) (\<lambda>u.
                 bind (set_prev (End t) e) (\<lambda>u.
                 bind (set_next e (End t)) (\<lambda>u.
                 set_prev e Null)))
       else bind (get_prev before_e) (\<lambda>p.
            bind (set_prev e p) (\<lambda>u.
            bind (if p \<noteq> Null then set_next p e
                  else modify_table t (\<lambda>tb. tb\<lparr>head := e\<rparr>)) (\<lambda>u.
            bind (set_next e before_e) (\<lambda>u.
            bind (get_next e) (\<lambda>n.
            set_prev n e)))))))))))"

text \<open>
  The private \<^verbatim>\<open>insert(before, hash, e)\<close>. The \<^verbatim>\<open>revert\<close> guard destroys \<open>e\<close> when
  the body leaves by an exception.
\<close>

definition object_insert :: "ptr \<Rightarrow> uint64 \<Rightarrow> ptr \<Rightarrow> ('v, unit) op" where
  "object_insert before_e0 hash e =
     unwind
       (bind (insert_grow before_e0) (\<lambda>before_e.
        bind deref_tab (\<lambda>t.
        bind (insert_link t before_e hash e) (\<lambda>u.
        modify_table t (\<lambda>tb. tb\<lparr>tsize := tsize tb + 1\<rparr>)))))
       (element_destroy e)"

text \<open>
  The search in \<^verbatim>\<open>remove\<close> for the chain predecessor of \<open>e\<close>, with its assertions
  that the walk has not reached the end.
\<close>

primrec remove_loop :: "nat \<Rightarrow> addr \<Rightarrow> ptr \<Rightarrow> ptr \<Rightarrow> ('v, ptr) op" where
  "remove_loop 0 t e it = throw nontermination"
| "remove_loop (Suc n) t e it =
     bind (get_local_next it) (\<lambda>ln.
       if ln \<noteq> e
       then if ln = End t then throw assertion else remove_loop n t e ln
       else return it)"

text \<open>
  \<^verbatim>\<open>remove(e)\<close> up to the decrement of the size: unlink from the order list of
  table \<open>t\<close>, then from the bucket chain of \<^verbatim>\<open>bucket(e->key())\<close>.
\<close>

definition remove_unlink :: "addr \<Rightarrow> ptr \<Rightarrow> ('v, unit) op" where
  "remove_unlink t e =
     bind (load_table t) (\<lambda>tb.
     bind (if e = head tb
           then bind (get_next e) (\<lambda>n. modify_table t (\<lambda>tb. tb\<lparr>head := n\<rparr>))
           else bind (get_prev e) (\<lambda>p.
                bind (get_next e) (\<lambda>n.
                bind (set_next p n) (\<lambda>u.
                bind (get_next e) (\<lambda>n.
                bind (get_prev e) (\<lambda>p.
                set_prev n p)))))) (\<lambda>u.
     bind (element_key e) (\<lambda>k.
     bind (object_bucket k) (\<lambda>bn.
     bind (get_bucket t bn) (\<lambda>h.
       if h \<noteq> e
       then if h = End t then throw assertion
            else bind fuel (\<lambda>n.
                 bind (remove_loop n t e h) (\<lambda>it.
                 bind (get_local_next e) (\<lambda>ln.
                 set_local_next it ln)))
       else bind (get_local_next h) (\<lambda>ln. set_bucket t bn ln))))))"

text \<open>\<^verbatim>\<open>remove(e)\<close>; \<^verbatim>\<open>--tab_->size\<close> wraps at zero.\<close>

definition object_remove :: "ptr \<Rightarrow> ('v, unit) op" where
  "object_remove e =
     bind deref_tab (\<lambda>t.
     bind (remove_unlink t e) (\<lambda>u.
     modify_table t (\<lambda>tb.
       tb\<lparr>tsize := (if tsize tb = 0 then 2 ^ 64 - 1 else tsize tb - 1)\<rparr>)))"

section \<open>Staging of a batch: \<^verbatim>\<open>undo_range\<close>\<close>

record undo_range =
  u_head :: ptr
  u_tail :: ptr
  u_n :: nat

definition undo_range_init :: undo_range where
  "undo_range_init = \<lparr>u_head = Null, u_tail = Null, u_n = 0\<rparr>"

definition undo_range_insert :: "undo_range \<Rightarrow> ptr \<Rightarrow> ('v, undo_range) op" where
  "undo_range_insert u e =
     bind (if u_head u = Null
           then bind (set_prev e Null) (\<lambda>x. return (u\<lparr>u_head := e, u_tail := e\<rparr>))
           else bind (set_prev e (u_tail u)) (\<lambda>x.
                bind (set_next (u_tail u) e) (\<lambda>x.
                return (u\<lparr>u_tail := e\<rparr>)))) (\<lambda>u'.
     bind (set_next e Null) (\<lambda>x.
     return (u'\<lparr>u_n := u_n u' + 1\<rparr>)))"

text \<open>The destructor destroys every entry still on the staging list.\<close>

primrec undo_range_destroy_loop :: "nat \<Rightarrow> ptr \<Rightarrow> ('v, unit) op" where
  "undo_range_destroy_loop 0 it = throw nontermination"
| "undo_range_destroy_loop (Suc n) it =
     (if it \<noteq> Null
      then bind (get_next it) (\<lambda>it'.
           bind (element_destroy it) (\<lambda>u.
           undo_range_destroy_loop n it'))
      else return ())"

definition undo_range_destroy :: "undo_range \<Rightarrow> ('v, unit) op" where
  "undo_range_destroy u = bind fuel (\<lambda>n. undo_range_destroy_loop n (u_head u))"

text \<open>
  One staged entry in the loop of \<^verbatim>\<open>commit\<close>, from \<^verbatim>\<open>// add to list\<close> up to the
  increment of the size: \<open>it\<close> is linked before \<open>before_e\<close> and pushed onto the chain
  of its bucket.
\<close>

definition commit_link :: "addr \<Rightarrow> ptr \<Rightarrow> uint64 \<Rightarrow> ptr \<Rightarrow> ('v, unit) op" where
  "commit_link t before_e hash it =
     bind (set_next it before_e) (\<lambda>u.
     bind (get_prev before_e) (\<lambda>p.
     bind (set_prev it p) (\<lambda>u.
     bind (set_prev before_e it) (\<lambda>u.
     bind (get_prev it) (\<lambda>p.
     bind (if p \<noteq> Null then set_next p it
           else modify_table t (\<lambda>tb. tb\<lparr>head := it\<rparr>)) (\<lambda>u.
     bind (load_table t) (\<lambda>tb.
     bind (constrain_hash hash (tbucket_count tb)) (\<lambda>bn.
     bind (get_bucket t bn) (\<lambda>local_head.
     bind (set_local_next it local_head) (\<lambda>u.
     set_bucket t bn it))))))))))"

text \<open>
  The loop of \<^verbatim>\<open>commit\<close>: a staged entry whose key is found among the linked
  entries is destroyed; any other is linked and counted.
\<close>

primrec commit_loop :: "nat \<Rightarrow> addr \<Rightarrow> ptr \<Rightarrow> ptr \<Rightarrow> ('v, unit) op" where
  "commit_loop 0 t before_e it = throw nontermination"
| "commit_loop (Suc n) t before_e it =
     (if it \<noteq> Null
      then bind (get_next it) (\<lambda>it'.
           bind (element_key it) (\<lambda>k.
           bind (object_find_impl k) (\<lambda>result.
             if fst result \<noteq> Null
             then bind (element_destroy it) (\<lambda>u. commit_loop n t before_e it')
             else bind (commit_link t before_e (snd result) it) (\<lambda>u.
                  bind (modify_table t (\<lambda>tb. tb\<lparr>tsize := tsize tb + 1\<rparr>)) (\<lambda>u.
                  commit_loop n t before_e it')))))
      else return ())"

text \<open>
  \<^verbatim>\<open>commit(pos, min_buckets)\<close>. \<^verbatim>\<open>tab\<close> is a reference to the container's table
  pointer, so \<^verbatim>\<open>tab->end()\<close> is taken of the table of the moment: before the
  \<^verbatim>\<open>rehash\<close> for \<open>at_end\<close> (only when \<open>pos\<close> is not null), after it for the
  refreshed \<^verbatim>\<open>before\<close>.
\<close>

definition undo_range_commit :: "undo_range \<Rightarrow> ptr \<Rightarrow> nat \<Rightarrow> ('v, undo_range) op" where
  "undo_range_commit u pos min_buckets =
     (if u_head u = Null then return u
      else
        bind (if pos = Null then return True
              else bind deref_tab (\<lambda>t. return (pos = End t))) (\<lambda>at_end.
        bind object_size (\<lambda>sz.
        bind object_max_load_factor (\<lambda>f.
        bind (ceil_quotient (of_nat (sz + u_n u)) f) (\<lambda>c.
        bind (object_rehash (max min_buckets c)) (\<lambda>x.
        bind deref_tab (\<lambda>t.
        bind fuel (\<lambda>n.
        bind (commit_loop n t (if at_end then End t else pos) (u_head u)) (\<lambda>x.
        return (u\<lparr>u_head := Null\<rparr>))))))))))"

section \<open>Insertion entry points\<close>

text \<open>
  Modelled from the spec: \<^verbatim>\<open>emplace\<close> is a template defined in \<^verbatim>\<open>object.hpp\<close>, which
  is not among the sources. It performs a lookup; on a hit it returns the entry found
  and \<open>False\<close>; on a miss it allocates an entry for the key and inserts it before
  \<open>pos\<close> with the hash the lookup computed, and returns it with \<open>True\<close>.
\<close>

definition object_emplace :: "ptr \<Rightarrow> byte list \<Rightarrow> fault + 'v \<Rightarrow> ('v, ptr \<times> bool) op" where
  "object_emplace pos k place_new =
     bind (object_find_impl k) (\<lambda>result.
       if fst result \<noteq> Null then return (fst result, False)
       else bind (object_allocate_impl k place_new) (\<lambda>e.
            bind (object_insert pos (snd result) e) (\<lambda>u.
            return (e, True))))"

text \<open>\<^verbatim>\<open>operator[]\<close>: \<^verbatim>\<open>emplace(end(), key, kind::null)\<close>, then the payload of the entry.\<close>

definition object_subscript :: "byte list \<Rightarrow> 'v \<Rightarrow> ('v, 'v) op" where
  "object_subscript k null_value =
     bind object_end (\<lambda>en.
     bind (object_emplace en k (Inr null_value)) (\<lambda>result.
     bind (load_element (fst result)) (\<lambda>e.
     return (payload e))))"

text \<open>
  Modelled from the spec: \<^verbatim>\<open>insert_range\<close> is a template defined in \<^verbatim>\<open>object.hpp\<close>,
  which is not among the sources. It stages one new entry per pair of the input on an
  \<^verbatim>\<open>undo_range\<close>, touching none of the container's structures, and then commits; the
  destructor of the \<^verbatim>\<open>undo_range\<close> destroys what is staged when an allocation throws.
  The input is the list of keys with their payload builders.
\<close>

primrec insert_range_loop ::
  "(byte list \<times> (fault + 'v)) list \<Rightarrow> undo_range \<Rightarrow> ('v, undo_range) op" where
  "insert_range_loop [] u = return u"
| "insert_range_loop (x # xs) u =
     bind (unwind (object_allocate_impl (fst x) (snd x)) (undo_range_destroy u)) (\<lambda>e.
     bind (undo_range_insert u e) (\<lambda>u'.
     insert_range_loop xs u'))"

definition object_insert_range ::
  "ptr \<Rightarrow> (byte list \<times> (fault + 'v)) list \<Rightarrow> nat \<Rightarrow> ('v, unit) op" where
  "object_insert_range pos xs bucket_count =
     bind (insert_range_loop xs undo_range_init) (\<lambda>u.
     bind (unwind (undo_range_commit u pos bucket_count) (undo_range_destroy u)) (\<lambda>u'.
     undo_range_destroy u'))"

text \<open>\<^verbatim>\<open>insert(init)\<close> and \<^verbatim>\<open>insert(pos, init)\<close>.\<close>

definition object_insert_init :: "(byte list \<times> (fault + 'v)) list \<Rightarrow> ('v, unit) op" where
  "object_insert_init init = bind object_end (\<lambda>en. object_insert_range en init 0)"

definition object_insert_init_at ::
  "ptr \<Rightarrow> (byte list \<times> (fault + 'v)) list \<Rightarrow> ('v, unit) op" where
  "object_insert_init_at pos init = object_insert_range pos init 0"

section \<open>Node handles\<close>

text \<open>
  \<^verbatim>\<open>node_type\<close>: the entry owned (or null) and the storage it came from (\<open>None\<close> for
  a null storage pointer).
\<close>

record node_type =
  n_e :: ptr
  n_sp :: "nat option"

definition node_type_empty :: node_type where
  "node_type_empty = \<lparr>n_e = Null, n_sp = None\<rparr>"

text \<open>The destructor of a node handle destroys the entry it owns.\<close>

definition node_type_destroy :: "node_type \<Rightarrow> ('v, unit) op" where
  "node_type_destroy nh = (if n_e nh \<noteq> Null then element_destroy (n_e nh) else return ())"

record insert_return_type =
  position :: ptr
  node :: node_type
  inserted :: bool

text \<open>
  \<^verbatim>\<open>insert(pos, node_type&& nh)\<close>. The result is what is returned together with the
  caller's handle after the call: moved from when the key is a duplicate, released
  when the entry was inserted. The key of the handle is the key of its entry
  (\<^verbatim>\<open>node_type::key\<close> is in \<^verbatim>\<open>object.hpp\<close>).
\<close>

definition object_insert_node ::
  "ptr \<Rightarrow> node_type \<Rightarrow> ('v, insert_return_type \<times> node_type) op" where
  "object_insert_node pos nh =
     (if n_e nh = Null
      then bind object_end (\<lambda>en.
           return (\<lparr>position = en, node = node_type_empty, inserted = False\<rparr>, nh))
      else
        bind get_this (\<lambda>ob.
          if n_sp nh \<noteq> Some (sp ob) then throw assertion
          else
            bind (element_key (n_e nh)) (\<lambda>k.
            bind (object_find_impl k) (\<lambda>result.
              if fst result \<noteq> Null
              then return (\<lparr>position = fst result, node = nh, inserted = False\<rparr>,
                           node_type_empty)
              else bind (object_insert pos (snd result) (n_e nh)) (\<lambda>u.
                   return (\<lparr>position = n_e nh, node = node_type_empty, inserted = True\<rparr>,
                           nh\<lparr>n_e := Null\<rparr>))))))"

definition object_insert_node_end ::
  "node_type \<Rightarrow> ('v, insert_return_type \<times> node_type) op" where
  "object_insert_node_end nh = bind object_end (\<lambda>en. object_insert_node en nh)"

section \<open>Erasure and extraction\<close>

definition object_erase :: "ptr \<Rightarrow> ('v, ptr) op" where
  "object_erase pos =
     bind (get_next pos) (\<lambda>pos'.
     bind (object_remove pos) (\<lambda>u.
     bind (element_destroy pos) (\<lambda>u.
     return pos')))"

primrec erase_range_loop :: "nat \<Rightarrow> ptr \<Rightarrow> ptr \<Rightarrow> ('v, ptr) op" where
  "erase_range_loop 0 first lst = throw nontermination"
| "erase_range_loop (Suc n) first lst =
     (if first \<noteq> lst
      then bind (get_next first) (\<lambda>first'.
           bind (object_remove first) (\<lambda>u.
           bind (element_destroy first) (\<lambda>u.
           erase_range_loop n first' lst)))
      else return first)"

definition object_erase_range :: "ptr \<Rightarrow> ptr \<Rightarrow> ('v, ptr) op" where
  "object_erase_range first lst = bind fuel (\<lambda>n. erase_range_loop n first lst)"

definition object_erase_key :: "byte list \<Rightarrow> ('v, nat) op" where
  "object_erase_key k =
     bind (object_find k) (\<lambda>it.
     bind object_end (\<lambda>en.
       if it = en then return 0
       else bind (object_erase it) (\<lambda>x. return 1)))"

definition object_extract :: "ptr \<Rightarrow> ('v, node_type) op" where
  "object_extract pos =
     bind object_end (\<lambda>en.
       if pos = en then throw assertion
       else bind (object_remove pos) (\<lambda>u.
            bind get_this (\<lambda>ob.
            return \<lparr>n_e = pos, n_sp = Some (sp ob)\<rparr>)))"

definition object_extract_key :: "byte list \<Rightarrow> ('v, node_type) op" where
  "object_extract_key k =
     bind (object_find k) (\<lambda>it.
     bind object_end (\<lambda>en.
       if it = en then return node_type_empty
       else object_extract it))"


section \<open>Construction, destruction, assignment\<close>

definition set_this :: "object \<Rightarrow> ('v, unit) op" where
  "set_this ob s = (Inr (), s\<lparr>this := ob\<rparr>)"

text \<open>
  A member function run on another container (a temporary, or the argument
  \<^verbatim>\<open>other\<close>): the result comes with that container as the call leaves it.
\<close>

definition on_object :: "object \<Rightarrow> ('v, 'a) op \<Rightarrow> ('v, 'a \<times> object) op" where
  "on_object ob f s =
     (case f (s\<lparr>this := ob\<rparr>) of
        (Inl e, s') \<Rightarrow> (Inl e, s'\<lparr>this := this s\<rparr>)
      | (Inr x, s') \<Rightarrow> (Inr (x, this s'), s'\<lparr>this := this s\<rparr>))"

text \<open>
  The default constructor with a storage pointer. The default member initialisers
  are in \<^verbatim>\<open>object.hpp\<close>: no table, and a maximum load factor of 1.
\<close>

definition object_init :: "nat \<Rightarrow> object" where
  "object_init storage = \<lparr>sp = storage, tab = None, mf = 1\<rparr>"

text \<open>\<^verbatim>\<open>~object\<close>: destroy every entry on the order list, then the table.\<close>

primrec destroy_loop :: "nat \<Rightarrow> addr \<Rightarrow> ptr \<Rightarrow> ('v, unit) op" where
  "destroy_loop 0 t it = throw nontermination"
| "destroy_loop (Suc n) t it =
     (if it \<noteq> End t
      then bind (get_next it) (\<lambda>it'.
           bind (element_destroy it) (\<lambda>u.
           destroy_loop n t it'))
      else return ())"

definition object_destroy :: "('v, unit) op" where
  "object_destroy =
     bind get_this (\<lambda>ob.
       case tab ob of
         None \<Rightarrow> return ()
       | Some t \<Rightarrow>
           bind (load_table t) (\<lambda>tb.
           bind fuel (\<lambda>n.
           bind (destroy_loop n t (head tb)) (\<lambda>u.
           table_destroy t))))"

text \<open>
  \<^verbatim>\<open>clear\<close>: a temporary is move-constructed from \<^verbatim>\<open>*this\<close>, which takes the table
  and leaves none behind; the temporary is destroyed when the function returns.
\<close>

definition object_clear :: "('v, unit) op" where
  "object_clear =
     bind get_this (\<lambda>ob.
     bind (set_tab None) (\<lambda>u.
     bind (on_object ob object_destroy) (\<lambda>r.
     return ())))"

text \<open>
  The pairs of a range of entries, read through the iterators (their increment
  follows the order link; they are defined in \<^verbatim>\<open>object.hpp\<close>).
\<close>

primrec items_loop :: "nat \<Rightarrow> ptr \<Rightarrow> ptr \<Rightarrow> ('v, (byte list \<times> 'v) list) op" where
  "items_loop 0 first lst = throw nontermination"
| "items_loop (Suc n) first lst =
     (if first \<noteq> lst
      then bind (element_key first) (\<lambda>k.
           bind (load_element first) (\<lambda>e.
           bind (get_next first) (\<lambda>first'.
           bind (items_loop n first' lst) (\<lambda>r.
           return ((k, payload e) # r)))))
      else return [])"

definition object_items :: "('v, (byte list \<times> 'v) list) op" where
  "object_items =
     bind object_begin (\<lambda>b.
     bind object_end (\<lambda>en.
     bind fuel (\<lambda>n.
     items_loop n b en)))"

text \<open>
  \<^verbatim>\<open>object(object const& other, storage_ptr sp)\<close>, constructing \<^verbatim>\<open>*this\<close>: the pairs
  of \<open>other\<close> go through \<^verbatim>\<open>insert_range\<close>, each payload copied.
\<close>

definition object_construct_copy :: "object \<Rightarrow> nat \<Rightarrow> ('v, unit) op" where
  "object_construct_copy other storage =
     bind (set_this \<lparr>sp = storage, tab = None, mf = mf other\<rparr>) (\<lambda>u.
     bind (on_object other object_items) (\<lambda>r.
     bind object_end (\<lambda>en.
     object_insert_range en (map (\<lambda>x. (fst x, Inr (snd x))) (fst r)) 0)))"

text \<open>
  \<^verbatim>\<open>object(object&& other, storage_ptr sp)\<close>, constructing \<^verbatim>\<open>*this\<close>; the result is
  \<open>other\<close> after the call. With the same storage the table pointer changes hands.
\<close>

definition object_construct_move :: "object \<Rightarrow> nat \<Rightarrow> ('v, object) op" where
  "object_construct_move other storage =
     bind (set_this \<lparr>sp = storage, tab = None, mf = mf other\<rparr>) (\<lambda>u.
       if storage = sp other
       then bind (set_tab (tab other)) (\<lambda>u. return (other\<lparr>tab := None\<rparr>))
       else bind (on_object other object_items) (\<lambda>r.
            bind object_end (\<lambda>en.
            bind (object_insert_range en (map (\<lambda>x. (fst x, Inr (snd x))) (fst r)) 0) (\<lambda>u.
            return other))))"

text \<open>
  \<^verbatim>\<open>object(init, bucket_count, sp)\<close>; the constructors that take no bucket count
  pass \<^verbatim>\<open>init.size()\<close>.
\<close>

definition object_construct_init ::
  "(byte list \<times> (fault + 'v)) list \<Rightarrow> nat \<Rightarrow> nat \<Rightarrow> ('v, unit) op" where
  "object_construct_init init bucket_count storage =
     bind (set_this (object_init storage)) (\<lambda>u.
     bind object_end (\<lambda>en.
     object_insert_range en init bucket_count))"

text \<open>
  The three assignment operators: a temporary is constructed with the storage of
  \<^verbatim>\<open>*this\<close>, \<^verbatim>\<open>*this\<close> is destroyed, and \<^verbatim>\<open>*this\<close> is constructed again from the
  pilfered temporary, which is left without a table.
\<close>

definition object_assign_move :: "object \<Rightarrow> ('v, object) op" where
  "object_assign_move other =
     bind get_this (\<lambda>ob.
     bind (on_object ob (object_construct_move other (sp ob))) (\<lambda>r.
     bind object_destroy (\<lambda>u.
     bind (set_this (snd r)) (\<lambda>u.
     return (fst r)))))"

definition object_assign_copy :: "object \<Rightarrow> ('v, unit) op" where
  "object_assign_copy other =
     bind get_this (\<lambda>ob.
     bind (on_object ob (object_construct_copy other (sp ob))) (\<lambda>r.
     bind object_destroy (\<lambda>u.
     set_this (snd r))))"

definition object_assign_init :: "(byte list \<times> (fault + 'v)) list \<Rightarrow> ('v, unit) op" where
  "object_assign_init init =
     bind get_this (\<lambda>ob.
     bind (on_object ob (object_construct_init init (length init) (sp ob))) (\<lambda>r.
     bind object_destroy (\<lambda>u.
     set_this (snd r))))"

text \<open>\<^verbatim>\<open>swap\<close>; the result is \<open>other\<close> after the call.\<close>

definition object_swap :: "object \<Rightarrow> ('v, object) op" where
  "object_swap other =
     bind get_this (\<lambda>ob.
       if sp ob = sp other
       then bind (set_this (ob\<lparr>tab := tab other, mf := mf other\<rparr>)) (\<lambda>u.
            return (other\<lparr>tab := tab ob, mf := mf ob\<rparr>))
       else
         bind (on_object ob (object_construct_move ob (sp other))) (\<lambda>r1.
         bind (set_this (fst r1)) (\<lambda>u.
         bind (on_object ob (object_construct_move other (sp ob))) (\<lambda>r2.
         bind (on_object (fst r2) object_destroy) (\<lambda>u.
         bind object_destroy (\<lambda>u.
         bind (set_this (snd r2)) (\<lambda>u.
         return (snd r1))))))))"


section \<open>States and inputs used in the statements\<close>

definition empty_memory :: "'v memory" where
  "empty_memory = \<lparr>elements = (\<lambda>a. None), tables = (\<lambda>a. None), fresh = 0, budget = None\<rparr>"

text \<open>A default-constructed container over the given storage, in a memory with nothing allocated.\<close>

definition initial_state :: "nat \<Rightarrow> 'v state" where
  "initial_state storage = \<lparr>this = object_init storage, mem = empty_memory\<rparr>"

text \<open>The state in which the next allocation fails.\<close>

definition exhaust :: "'v state \<Rightarrow> 'v state" where
  "exhaust s = s\<lparr>mem := (mem s)\<lparr>budget := Some 0\<rparr>\<rparr>"

text \<open>A key of 128 bytes, each the letter a.\<close>

definition long_key :: "byte list" where
  "long_key = replicate 128 0x61"

text \<open>
  The order list as a list of addresses: from \<open>p\<close> the order links lead through
  exactly these allocated entries to the end hook of table \<open>t\<close>.
\<close>

fun order_chain :: "'v memory \<Rightarrow> addr \<Rightarrow> ptr \<Rightarrow> addr list \<Rightarrow> bool" where
  "order_chain m t p [] = (p = End t)"
| "order_chain m t p (a # as) =
     (p = Elem a \<and>
      (case elements m a of None \<Rightarrow> False | Some e \<Rightarrow> order_chain m t (nxt e) as))"

text \<open>The bytes after an entry's header decode to a key that lies within them.\<close>

definition decodable :: "byte list \<Rightarrow> bool" where
  "decodable bs =
     (case varint_read bs of
        None \<Rightarrow> False
      | Some (len, used) \<Rightarrow> used + unat len \<le> length bs)"

text \<open>
  The container of a state holds exactly the entries \<open>xs\<close>, in this order: with no
  table there are none; with a table they are its order list, pairwise distinct,
  allocated below \<open>fresh\<close>, each with a decodable key.
\<close>

definition holds_entries :: "'v state \<Rightarrow> addr list \<Rightarrow> bool" where
  "holds_entries s xs =
     (case tab (this s) of
        None \<Rightarrow> xs = []
      | Some t \<Rightarrow>
          (case tables (mem s) t of
             None \<Rightarrow> False
           | Some tb \<Rightarrow>
               order_chain (mem s) t (head tb) xs \<and> distinct xs \<and>
               list_all (\<lambda>a. a < fresh (mem s)) xs \<and>
               list_all (\<lambda>a. case elements (mem s) a of
                                None \<Rightarrow> False
                              | Some e \<Rightarrow> decodable (tail e)) xs))"

section \<open>Bucket count and load factor: what the statements track\<close>

text \<open>The size and the bucket count stored in the table at an address, if one is allocated there.\<close>

definition tinfo :: "'v state \<Rightarrow> addr \<Rightarrow> (nat \<times> nat) option" where
  "tinfo s t = map_option (\<lambda>tb. (tsize tb, tbucket_count tb)) (tables (mem s) t)"

text \<open>
  An operation that leaves the container's members, and the size and bucket count of
  every table, as they are, whatever its result; the allocator only moves forward.
\<close>

definition frame :: "('v, 'a) op \<Rightarrow> bool" where
  "frame f = (\<forall>s r s'. f s = (r, s') \<longrightarrow>
                this s' = this s \<and> tinfo s' = tinfo s \<and> fresh (mem s) \<le> fresh (mem s'))"

text \<open>
  The size and bucket count that \<^verbatim>\<open>size()\<close> and \<^verbatim>\<open>bucket_count()\<close> report: both 0
  without a table; \<open>None\<close> when the table pointer dangles.
\<close>

definition pview :: "'v state \<Rightarrow> (nat \<times> nat) option" where
  "pview s = (case tab (this s) of None \<Rightarrow> Some (0, 0) | Some t \<Rightarrow> tinfo s t)"

text \<open>The table of the container, if any, was handed out by the allocator.\<close>

definition table_allocated :: "'v state \<Rightarrow> bool" where
  "table_allocated s = (\<forall>t. tab (this s) = Some t \<longrightarrow> t < fresh (mem s))"

text \<open>
  The two conditions of the load policy, read through the observers:
  \<^verbatim>\<open>bucket_count()\<close> is an entry of the prime table and
  \<^verbatim>\<open>size() <= bucket_count() * max_load_factor()\<close>.
\<close>

definition load_ok :: "'v state \<Rightarrow> bool" where
  "load_ok s =
     (\<exists>n bc. object_size s = (Inr n, s) \<and> object_bucket_count s = (Inr bc, s) \<and>
             bc \<in> set get_primes \<and> of_nat n \<le> of_nat bc * mf (this s))"

text \<open>
  The load policy of a container with a positive maximum load factor whose table, if
  any, was handed out by the allocator.
\<close>

definition policy_ok :: "'v state \<Rightarrow> bool" where
  "policy_ok s = (0 < mf (this s) \<and> table_allocated s \<and> load_ok s)"

text \<open>Two states with the same container members and bucket count; the size may differ.\<close>

definition same_buckets :: "'v state \<Rightarrow> 'v state \<Rightarrow> bool" where
  "same_buckets s s' =
     (this s' = this s \<and> fresh (mem s) \<le> fresh (mem s') \<and>
      (\<exists>sz sz' bc. pview s = Some (sz, bc) \<and> pview s' = Some (sz', bc)))"

text \<open>
  The mutating public operations named by the load-policy property, with their
  arguments: single insert (by key, by node handle), bulk insert, the three
  \<^verbatim>\<open>erase\<close> overloads, \<^verbatim>\<open>rehash\<close>, \<^verbatim>\<open>reserve\<close>, the \<^verbatim>\<open>max_load_factor\<close> setter, and
  copy and move assignment.
\<close>

datatype 'v operation =
    Emplace ptr "byte list" "fault + 'v"
  | Insert_node ptr node_type
  | Insert_init ptr "(byte list \<times> (fault + 'v)) list"
  | Erase ptr
  | Erase_range ptr ptr
  | Erase_key "byte list"
  | Rehash nat
  | Reserve nat
  | Set_max_load_factor rat
  | Assign_copy object
  | Assign_move object

definition discard :: "('v, 'a) op \<Rightarrow> ('v, unit) op" where
  "discard f = bind f (\<lambda>r. return ())"

fun perform :: "'v operation \<Rightarrow> ('v, unit) op" where
  "perform (Emplace pos k b) = discard (object_emplace pos k b)"
| "perform (Insert_node pos nh) = discard (object_insert_node pos nh)"
| "perform (Insert_init pos init) = object_insert_init_at pos init"
| "perform (Erase pos) = discard (object_erase pos)"
| "perform (Erase_range first lst) = discard (object_erase_range first lst)"
| "perform (Erase_key k) = discard (object_erase_key k)"
| "perform (Rehash n) = object_rehash n"
| "perform (Reserve n) = object_reserve n"
| "perform (Set_max_load_factor f) = object_set_max_load_factor f"
| "perform (Assign_copy other) = object_assign_copy other"
| "perform (Assign_move other) = discard (object_assign_move other)"

text \<open>What \<^verbatim>\<open>size()\<close> reports, and what \<^verbatim>\<open>count(key)\<close> reports.\<close>

definition size_of :: "'v state \<Rightarrow> nat" where
  "size_of s = (case fst (object_size s) of Inl e \<Rightarrow> 0 | Inr n \<Rightarrow> n)"

definition count_key :: "byte list \<Rightarrow> 'v state \<Rightarrow> nat" where
  "count_key k s = (case fst (object_count k s) of Inl e \<Rightarrow> 0 | Inr n \<Rightarrow> n)"

subsection \<open>The order links\<close>

text \<open>
  The forward link stored in the entry at an address, and the backward link stored in
  the hook a pointer refers to (an entry, or the end hook of a table), if allocated.
\<close>

definition nxt_of :: "'v state \<Rightarrow> addr \<Rightarrow> ptr option" where
  "nxt_of s a = map_option nxt (elements (mem s) a)"

definition prev_of :: "'v state \<Rightarrow> ptr \<Rightarrow> ptr option" where
  "prev_of s x =
     (case x of
        Null \<Rightarrow> None
      | Elem a \<Rightarrow> map_option prev (elements (mem s) a)
      | End t \<Rightarrow> map_option (\<lambda>tb. prev (end_element tb)) (tables (mem s) t))"

text \<open>From \<open>p\<close> the forward links \<open>f\<close> lead through exactly the entries \<open>as\<close> to \<open>q\<close>.\<close>

fun path :: "(addr \<Rightarrow> ptr option) \<Rightarrow> ptr \<Rightarrow> addr list \<Rightarrow> ptr \<Rightarrow> bool" where
  "path f p [] q = (p = q)"
| "path f p (a # as) q =
     (p = Elem a \<and> (case f a of None \<Rightarrow> False | Some n \<Rightarrow> path f n as q))"

text \<open>
  The backward links \<open>g\<close> of the entries \<open>as\<close> mirror their order: the first points
  back to \<open>p\<close>, every other one to the entry before it.
\<close>

fun back_linked :: "(ptr \<Rightarrow> ptr option) \<Rightarrow> ptr \<Rightarrow> addr list \<Rightarrow> bool" where
  "back_linked g p [] = True"
| "back_linked g p (a # as) = (g (Elem a) = Some p \<and> back_linked g (Elem a) as)"

text \<open>
  The entries met on the way from \<open>p\<close> to \<open>q\<close> along the forward links, in at most
  \<open>n\<close> steps.
\<close>

primrec walk :: "nat \<Rightarrow> (addr \<Rightarrow> ptr option) \<Rightarrow> ptr \<Rightarrow> ptr \<Rightarrow> addr list option" where
  "walk 0 f p q = None"
| "walk (Suc n) f p q =
     (if p = q then Some []
      else case p of
             Elem a \<Rightarrow> (case f a of
                          None \<Rightarrow> None
                        | Some p' \<Rightarrow> map_option (Cons a) (walk n f p' q))
           | _ \<Rightarrow> None)"

text \<open>A pointer that does not name an entry the allocator has yet to hand out.\<close>

definition settled :: "'v state \<Rightarrow> ptr option \<Rightarrow> bool" where
  "settled s p = (\<forall>a. p = Some (Elem a) \<longrightarrow> a < fresh (mem s))"

text \<open>
  A position a bulk insert can be given: the position, its backward link and the
  backward link of the end hook of the container's table are settled.
\<close>

definition anchored :: "'v state \<Rightarrow> ptr \<Rightarrow> bool" where
  "anchored s pos =
     (settled s (Some pos) \<and> settled s (prev_of s pos) \<and>
      (\<forall>t. tab (this s) = Some t \<longrightarrow> settled s (prev_of s (End t))))"

text \<open>
  A range \<^verbatim>\<open>[first, last)\<close> that \<^verbatim>\<open>erase\<close> can be given: the forward links lead from
  \<open>first\<close> to \<open>lst\<close> through pairwise distinct entries, no more of them than
  \<^verbatim>\<open>size()\<close>, whose backward links mirror their order, starting outside the range.
\<close>

definition range_ok :: "'v state \<Rightarrow> ptr \<Rightarrow> ptr \<Rightarrow> bool" where
  "range_ok s first lst =
     (case walk (Suc (fresh (mem s))) (nxt_of s) first lst of
        None \<Rightarrow> False
      | Some as \<Rightarrow>
          distinct as \<and> length as \<le> size_of s \<and>
          (case prev_of s first of
             None \<Rightarrow> as = []
           | Some p \<Rightarrow> p \<notin> Elem ` set as \<and> back_linked (prev_of s) p as))"

text \<open>An operation that leaves the state as it is, whatever its result.\<close>

definition pure :: "('v, 'a) op \<Rightarrow> bool" where
  "pure f = (\<forall>s r s'. f s = (r, s') \<longrightarrow> s' = s)"

text \<open>An operation that leaves every order link as it is, whatever its result.\<close>

definition keeps :: "('v, 'a) op \<Rightarrow> bool" where
  "keeps f = (\<forall>s r s'. f s = (r, s') \<longrightarrow> nxt_of s' = nxt_of s \<and> prev_of s' = prev_of s)"

subsection \<open>The arguments an operation is meant for\<close>

text \<open>
  A bulk insert at an anchored position; \<^verbatim>\<open>erase(pos)\<close> on a container that is not
  empty; \<^verbatim>\<open>erase(first, last)\<close> on a range of the container; \<^verbatim>\<open>erase(key)\<close> on a
  container that does not find a key while its size is zero; a positive load factor;
  for assignment a source with a positive load factor which, when it shares the
  storage and hands its table over, is another container that satisfies the load policy
  itself.
\<close>

fun admissible :: "'v operation \<Rightarrow> 'v state \<Rightarrow> bool" where
  "admissible (Insert_init pos init) s = anchored s pos"
| "admissible (Erase pos) s = (0 < size_of s)"
| "admissible (Erase_range first lst) s = range_ok s first lst"
| "admissible (Erase_key k) s = (count_key k s \<le> size_of s)"
| "admissible (Set_max_load_factor f) s = (0 < f)"
| "admissible (Assign_copy other) s = (0 < mf other)"
| "admissible (Assign_move other) s =
     (0 < mf other \<and>
      (sp other = sp (this s) \<longrightarrow>
         policy_ok (s\<lparr>this := other\<rparr>) \<and> (tab other = None \<or> tab other \<noteq> tab (this s))))"
| "admissible opn s = True"

text \<open>Rules that show that an operation is a \<open>frame\<close>, is \<open>pure\<close>, or \<open>keeps\<close> the links.\<close>

named_theorems frame_intros
named_theorems pure_intros
named_theorems keeps_intros

section \<open>Evaluation\<close>

lemmas monad_defs = return_def throw_def bind_def unwind_def is_exception_def
  get_this_def get_mem_def set_mem_def set_tab_def set_mf_def set_this_def on_object_def fuel_def

lemmas memory_defs = allocate_def load_element_def store_element_def load_table_def
  store_table_def deallocate_element_def deallocate_table_def get_hook_def get_next_def
  get_prev_def set_next_def set_prev_def get_local_next_def set_local_next_def
  element_key_def element_destroy_def table_construct_def table_destroy_def modify_table_def
  get_bucket_def set_bucket_def

lemmas observer_defs = object_begin_def object_end_def object_empty_def object_size_def
  object_bucket_count_def object_max_load_factor_def assert_tab_def deref_tab_def
  object_bucket_def object_find_impl_def object_find_def object_count_def object_contains_def
  object_at_def object_load_factor_def object_items_def

lemmas policy_defs = constrain_hash_def lower_bound_deref_def
  ceil_quotient_def get_primes_def rehash_transplant_def rehash_create_def object_rehash_def
  object_reserve_def
  object_set_max_load_factor_def

lemmas modifier_defs = object_allocate_impl_def insert_grow_def insert_link_def
  object_insert_def remove_unlink_def object_remove_def commit_link_def
  undo_range_init_def undo_range_insert_def undo_range_destroy_def undo_range_commit_def
  object_emplace_def object_subscript_def object_insert_range_def object_insert_init_def
  object_insert_init_at_def node_type_empty_def node_type_destroy_def object_insert_node_def
  object_insert_node_end_def object_erase_def object_erase_range_def object_erase_key_def
  object_extract_def object_extract_key_def object_init_def object_destroy_def object_clear_def
  object_construct_copy_def object_construct_move_def object_construct_init_def
  object_assign_move_def object_assign_copy_def object_assign_init_def object_swap_def

lemmas input_defs = empty_memory_def initial_state_def exhaust_def
  varint_read_def varint_write_def varint_write_bytes.simps Let_def

lemmas eval_defs = monad_defs memory_defs observer_defs policy_defs modifier_defs input_defs

declare varint_write_bytes.simps [simp del] varint_size.simps [simp del]

lemma hasher_long_key: "hasher long_key = 6340014246628720037"
  by code_simp

lemma hasher_Nil: "hasher [] = 14695981039346656037"
  by (simp add: hasher_def hasher_init_def)

lemma length_long_key: "length long_key = 128"
  by (simp add: long_key_def)

lemma long_key_not_Nil: "long_key \<noteq> []"
  by (simp add: long_key_def)

lemmas long_key_facts = hasher_long_key hasher_Nil length_long_key long_key_not_Nil

lemmas policy_eval = policy_ok_def load_ok_def table_allocated_def size_of_def count_key_def
  discard_def hasher_def hasher_init_def anchored_def settled_def range_ok_def nxt_of_def
  prev_of_def

section \<open>The varint codec\<close>

text \<open>
  C1. Decoding what \<^verbatim>\<open>varint_write\<close> stores for a value gives the value back and
  consumes as many bytes as were written. The code does not do this at the value 128:
  it stores the two bytes 0x00 0x01, no byte carrying a continuation mark, and
  \<^verbatim>\<open>varint_read\<close> stops at the first byte with the value 0 after one byte.
\<close>

theorem varint_roundtrip_breaks_at_128:
  "varint_write 128 = ([0, 1], 2) \<and> varint_read (fst (varint_write 128)) = Some (0, 1)"
  by (simp add: varint_write_def varint_write_bytes.simps varint_read_def)


section \<open>Lookup\<close>

text \<open>
  C2. A stored key is found and an absent key is not, for keys of every length. The code
  does not find a stored key of 128 bytes: \<^verbatim>\<open>emplace\<close> reports the entry as inserted,
  \<^verbatim>\<open>element::key\<close> reads the stored key back as the empty string (the length
  prefix written by \<^verbatim>\<open>varint_write\<close> decodes to 0), and \<^verbatim>\<open>find\<close> of the same key
  returns \<^verbatim>\<open>end()\<close>.
\<close>

theorem find_misses_stored_long_key:
  "case object_emplace Null long_key (Inr (1::nat)) (initial_state 0) of (r, s) \<Rightarrow>
     r = Inr (Elem 0, True) \<and>
     fst (element_key (Elem 0) s) = Inr [] \<and>
     fst (object_find long_key s) = Inr (End 1) \<and>
     fst (object_end s) = Inr (End 1) \<and>
     fst (object_count long_key s) = Inr 0"
  by (simp add: eval_defs long_key_facts)

section \<open>Insertion order and size\<close>

text \<open>
  C4. N inserts with pairwise distinct keys give size N and iteration in insertion
  order. The code does not: after the insert of a key of 128 bytes, the insert of the
  empty key (a different key) is refused as a duplicate of the first entry, whose key
  reads back as empty; two distinct keys leave size 1.
\<close>

theorem distinct_keys_collapse:
  "case object_emplace Null long_key (Inr (1::nat)) (initial_state 0) of (r1, s1) \<Rightarrow>
   case bind object_end (\<lambda>en. object_emplace en [] (Inr 2)) s1 of (r2, s2) \<Rightarrow>
     long_key \<noteq> [] \<and>
     r1 = Inr (Elem 0, True) \<and> r2 = Inr (Elem 0, False) \<and>
     fst (object_size s2) = Inr 1 \<and>
     fst (object_items s2) = Inr [([], 1)]"
  by (simp add: eval_defs long_key_facts)

section \<open>Duplicate keys\<close>

text \<open>
  C7. Inserting a key that the container holds leaves one entry for it and reports
  \<open>False\<close>. The code does not for a key of 128 bytes: the second \<^verbatim>\<open>emplace\<close> of the
  same key does not find the first entry, links a second entry and reports \<open>True\<close>;
  the size is 2 and \<^verbatim>\<open>count\<close> of the key is 0.
\<close>

theorem reinsert_long_key_inserts_again:
  "case object_emplace Null long_key (Inr (1::nat)) (initial_state 0) of (r1, s1) \<Rightarrow>
   case bind object_end (\<lambda>en. object_emplace en long_key (Inr 2)) s1 of (r2, s2) \<Rightarrow>
     r1 = Inr (Elem 0, True) \<and> r2 = Inr (Elem 2, True) \<and>
     fst (object_size s2) = Inr 2 \<and>
     fst (object_count long_key s2) = Inr 0"
  by (simp add: eval_defs long_key_facts)

section \<open>Node handles\<close>

text \<open>
  C8. Extracting an entry and inserting the node handle again makes the lookup of its
  key succeed again. The code does not for a key of 128 bytes: the handle is inserted
  and the size is 1 again, but \<^verbatim>\<open>find\<close> of the key returns \<^verbatim>\<open>end()\<close>.
\<close>

theorem extract_reinsert_long_key_not_found:
  "case object_emplace Null long_key (Inr (1::nat)) (initial_state 0) of (r1, s1) \<Rightarrow>
   case object_extract (Elem 0) s1 of (r2, s2) \<Rightarrow>
   case object_insert_node_end \<lparr>n_e = Elem 0, n_sp = Some 0\<rparr> s2 of (r3, s3) \<Rightarrow>
     r1 = Inr (Elem 0, True) \<and>
     r2 = Inr \<lparr>n_e = Elem 0, n_sp = Some 0\<rparr> \<and>
     map_sum id (\<lambda>x. inserted (fst x)) r3 = Inr True \<and>
     fst (object_size s3) = Inr 1 \<and>
     fst (object_find long_key s3) = fst (object_end s3) \<and>
     fst (object_contains long_key s3) = Inr False"
  by (simp add: eval_defs long_key_facts)

text \<open>
  C9. Inserting a node handle that owns no entry returns \<^verbatim>\<open>end()\<close>, an empty handle
  and \<open>False\<close>, and changes nothing: the state after the call is the state before it,
  for both overloads.
\<close>

theorem insert_empty_node_handle:
  "object_insert_node pos \<lparr>n_e = Null, n_sp = st\<rparr> s =
     (Inr (\<lparr>position = (case tab (this s) of None \<Rightarrow> Null | Some t \<Rightarrow> End t),
            node = node_type_empty, inserted = False\<rparr>,
           \<lparr>n_e = Null, n_sp = st\<rparr>), s) \<and>
   object_insert_node_end \<lparr>n_e = Null, n_sp = st\<rparr> s =
     (Inr (\<lparr>position = (case tab (this s) of None \<Rightarrow> Null | Some t \<Rightarrow> End t),
            node = node_type_empty, inserted = False\<rparr>,
           \<lparr>n_e = Null, n_sp = st\<rparr>), s) \<and>
   object_end s = (Inr (case tab (this s) of None \<Rightarrow> Null | Some t \<Rightarrow> End t), s)"
  by (simp add: object_insert_node_def object_insert_node_end_def object_end_def
        bind_def return_def get_this_def split: option.splits)

section \<open>Allocation failure\<close>

text \<open>
  C3. When an allocation fails, the operation leaves the container as it was and no
  entry is freed twice. The code does not for the insert of a node handle: the table
  allocation of \<^verbatim>\<open>rehash\<close> fails, the \<^verbatim>\<open>revert\<close> guard of the private \<^verbatim>\<open>insert\<close>
  destroys the entry, and the handle of the caller still owns it; the destructor of
  the handle then destroys an entry that is no longer allocated.
\<close>

theorem failed_node_insert_frees_owned_entry:
  "case object_emplace Null [0x6b] (Inr (1::nat)) (initial_state 0) of (r1, s1) \<Rightarrow>
   case object_extract (Elem 0) s1 of (r2, s2) \<Rightarrow>
   case object_insert_node_end \<lparr>n_e = Elem 0, n_sp = Some 0\<rparr>
          (exhaust (s2\<lparr>this := object_init 0\<rparr>)) of (r3, s3) \<Rightarrow>
     r2 = Inr \<lparr>n_e = Elem 0, n_sp = Some 0\<rparr> \<and>
     r3 = Inl bad_alloc \<and>
     elements (mem s3) 0 = None \<and>
     fst (node_type_destroy \<lparr>n_e = Elem 0, n_sp = Some 0\<rparr> s3) = Inl undefined_behaviour"
  by (simp add: eval_defs hasher_def hasher_init_def)

section \<open>Clearing\<close>

lemma order_chain_frame:
  "(\<And>b. b \<in> set xs \<Longrightarrow> elements m' b = elements m b) \<Longrightarrow>
   order_chain m' t p xs = order_chain m t p xs"
  by (induction xs arbitrary: p) (auto split: option.splits)

lemma element_destroy_live:
  assumes "elements (mem s) a = Some e" "decodable (tail e)"
  shows "element_destroy (Elem a) s =
           (Inr (), s\<lparr>mem := (mem s)\<lparr>elements := (elements (mem s))(a := None)\<rparr>\<rparr>)"
  using assms
  by (auto simp: element_destroy_def element_key_def deallocate_element_def load_element_def
        bind_def return_def throw_def decodable_def split: option.splits)

lemma get_next_live:
  assumes "elements (mem s) a = Some e"
  shows "get_next (Elem a) s = (Inr (nxt e), s)"
  using assms by (simp add: get_next_def get_hook_def load_element_def bind_def return_def)

lemma destroy_loop_chain:
  assumes "order_chain (mem s) t p xs" "distinct xs" "length xs < n"
    and "\<And>a. a \<in> set xs \<Longrightarrow> \<exists>e. elements (mem s) a = Some e \<and> decodable (tail e)"
  shows "destroy_loop n t p s =
           (Inr (), s\<lparr>mem := (mem s)\<lparr>elements :=
              (\<lambda>a. if a \<in> set xs then None else elements (mem s) a)\<rparr>\<rparr>)"
  using assms
proof (induction xs arbitrary: n p s)
  case Nil
  then obtain k where "n = Suc k" by (cases n) auto
  with Nil show ?case by (simp add: return_def)
next
  case (Cons a as)
  from Cons.prems(3) obtain k where n: "n = Suc k" and k: "length as < k" by (cases n) auto
  from Cons.prems(1) obtain e where p: "p = Elem a" and e: "elements (mem s) a = Some e"
    and ch: "order_chain (mem s) t (nxt e) as"
    by (auto split: option.splits)
  from Cons.prems(4)[of a] e have dec: "decodable (tail e)" by auto
  let ?s1 = "s\<lparr>mem := (mem s)\<lparr>elements := (elements (mem s))(a := None)\<rparr>\<rparr>"
  from Cons.prems(2) have na: "a \<notin> set as" and d: "distinct as" by auto
  have ch1: "order_chain (mem ?s1) t (nxt e) as"
    using ch na by (subst order_chain_frame[where m = "mem s"]) auto
  have live1: "\<And>b. b \<in> set as \<Longrightarrow> \<exists>e. elements (mem ?s1) b = Some e \<and> decodable (tail e)"
    using Cons.prems(4) na by auto
  have IH: "destroy_loop k t (nxt e) ?s1 =
      (Inr (), ?s1\<lparr>mem := (mem ?s1)\<lparr>elements :=
         (\<lambda>b. if b \<in> set as then None else elements (mem ?s1) b)\<rparr>\<rparr>)"
    by (rule Cons.IH[OF ch1 d k live1])
  have eq: "(\<lambda>b. if b \<in> set as then None else elements (mem ?s1) b)
          = (\<lambda>b. if b \<in> set (a # as) then None else elements (mem s) b)"
    by (rule ext) auto
  show ?case
    using IH by (simp add: n p bind_def get_next_live[OF e] element_destroy_live[OF e dec] eq)
qed

lemma distinct_below_length:
  assumes "distinct xs" "\<And>a. a \<in> set xs \<Longrightarrow> a < (n::nat)"
  shows "length xs \<le> n"
proof -
  have "set xs \<subseteq> {..<n}" using assms(2) by auto
  then have "card (set xs) \<le> card {..<n}" by (intro card_mono) auto
  then show ?thesis using assms(1) by (simp add: distinct_card)
qed

lemma clear_returns:
  assumes "object_clear s = (Inr u, s')"
  shows "this s' = (this s)\<lparr>tab := None\<rparr>"
  using assms
  by (auto simp: object_clear_def bind_def get_this_def set_tab_def on_object_def return_def
        split: prod.splits sum.splits)

lemma observers_no_table:
  assumes "tab (this s) = None"
  shows "object_size s = (Inr 0, s) \<and> object_empty s = (Inr True, s) \<and>
         object_bucket_count s = (Inr 0, s)"
  using assms
  by (simp add: object_size_def object_empty_def object_bucket_count_def bind_def get_this_def return_def)

lemma object_destroy_entries:
  assumes "holds_entries s xs"
  shows "object_destroy s =
     (Inr (), case tab (this s) of None \<Rightarrow> s
              | Some t \<Rightarrow> s\<lparr>mem := (mem s)\<lparr>elements :=
                   (\<lambda>a. if a \<in> set xs then None else elements (mem s) a),
                   tables := (tables (mem s))(t := None)\<rparr>\<rparr>)"
proof (cases "tab (this s)")
  case None
  then show ?thesis by (simp add: object_destroy_def bind_def get_this_def return_def)
next
  case (Some t)
  with assms obtain tb where tb: "tables (mem s) t = Some tb"
    and ch: "order_chain (mem s) t (head tb) xs" and d: "distinct xs"
    and lt: "list_all (\<lambda>a. a < fresh (mem s)) xs"
    and dec: "list_all (\<lambda>a. case elements (mem s) a of None \<Rightarrow> False
                              | Some e \<Rightarrow> decodable (tail e)) xs"
    by (auto simp: holds_entries_def split: option.splits)
  have len: "length xs < Suc (fresh (mem s))"
    using distinct_below_length[OF d, of "fresh (mem s)"] lt by (auto simp: list_all_iff)
  have live: "\<And>a. a \<in> set xs \<Longrightarrow> \<exists>e. elements (mem s) a = Some e \<and> decodable (tail e)"
    using dec by (auto simp: list_all_iff split: option.splits)
  show ?thesis
    by (simp add: object_destroy_def bind_def get_this_def Some load_table_def tb fuel_def
          destroy_loop_chain[OF ch d len live] table_destroy_def deallocate_table_def
          del: destroy_loop.simps)
qed

text \<open>
  C10. After \<^verbatim>\<open>clear\<close> returns, \<^verbatim>\<open>size\<close> is 0, \<^verbatim>\<open>empty\<close> is true and
  \<^verbatim>\<open>bucket_count\<close> is 0: the table is released, not kept. Whenever \<^verbatim>\<open>clear\<close> returns
  this holds; and on a container that holds the entries \<open>xs\<close>, \<^verbatim>\<open>clear\<close> does return,
  every entry of \<open>xs\<close> is deallocated and so is the table.
\<close>

theorem clear_releases_everything:
  "(object_clear s = (Inr u, s') \<longrightarrow>
      object_size s' = (Inr 0, s') \<and> object_empty s' = (Inr True, s') \<and>
      object_bucket_count s' = (Inr 0, s')) \<and>
   (holds_entries s xs \<longrightarrow>
      (\<exists>s'. object_clear s = (Inr (), s') \<and>
            object_size s' = (Inr 0, s') \<and> object_empty s' = (Inr True, s') \<and>
            object_bucket_count s' = (Inr 0, s') \<and>
            (\<forall>a \<in> set xs. elements (mem s') a = None) \<and>
            (\<forall>t. tab (this s) = Some t \<longrightarrow> tables (mem s') t = None)))"
proof (rule conjI; rule impI)
  assume "object_clear s = (Inr u, s')"
  then have "tab (this s') = None" by (simp add: clear_returns)
  then show "object_size s' = (Inr 0, s') \<and> object_empty s' = (Inr True, s') \<and>
      object_bucket_count s' = (Inr 0, s')" by (rule observers_no_table)
next
  assume h: "holds_entries s xs"
  have rst: "s\<lparr>this := (this s)\<lparr>tab := None\<rparr>, this := this s\<rparr> = s" by simp
  obtain s1 where d: "object_destroy s = (Inr (), s1)"
    and s1: "s1 = (case tab (this s) of None \<Rightarrow> s
              | Some t \<Rightarrow> s\<lparr>mem := (mem s)\<lparr>elements :=
                   (\<lambda>a. if a \<in> set xs then None else elements (mem s) a),
                   tables := (tables (mem s))(t := None)\<rparr>\<rparr>)"
    using object_destroy_entries[OF h] by simp
  let ?s' = "s1\<lparr>this := (this s)\<lparr>tab := None\<rparr>\<rparr>"
  have c: "object_clear s = (Inr (), ?s')"
    using d by (simp add: object_clear_def bind_def get_this_def set_tab_def on_object_def return_def rst)
  have t: "tab (this ?s') = None" by simp
  have el: "\<forall>a \<in> set xs. elements (mem ?s') a = None"
    using h by (auto simp: s1 holds_entries_def split: option.splits)
  have tb: "\<forall>t. tab (this s) = Some t \<longrightarrow> tables (mem ?s') t = None"
    by (auto simp: s1)
  show "\<exists>s'. object_clear s = (Inr (), s') \<and>
            object_size s' = (Inr 0, s') \<and> object_empty s' = (Inr True, s') \<and>
            object_bucket_count s' = (Inr 0, s') \<and>
            (\<forall>a \<in> set xs. elements (mem s') a = None) \<and>
            (\<forall>t. tab (this s) = Some t \<longrightarrow> tables (mem s') t = None)"
    using c observers_no_table[OF t] el tb by blast
qed

theorem clear_releases_everything_witness:
  "holds_entries
     (snd (bind (object_emplace Null [0x61] (Inr (1::nat)))
             (\<lambda>r. bind object_end (\<lambda>en. object_emplace en [0x62] (Inr 2)))
             (initial_state 0))) [0, 2] \<and>
   (\<exists>s'. object_clear
           (snd (bind (object_emplace Null [0x61] (Inr (1::nat)))
                   (\<lambda>r. bind object_end (\<lambda>en. object_emplace en [0x62] (Inr 2)))
                   (initial_state 0))) = (Inr (), s') \<and>
         object_size s' = (Inr 0, s') \<and> object_empty s' = (Inr True, s') \<and>
         object_bucket_count s' = (Inr 0, s') \<and>
         elements (mem s') 0 = None \<and> elements (mem s') 2 = None \<and>
         tables (mem s') 1 = None)"
proof -
  let ?s = "snd (bind (object_emplace Null [0x61] (Inr (1::nat)))
             (\<lambda>r. bind object_end (\<lambda>en. object_emplace en [0x62] (Inr 2)))
             (initial_state 0))"
  have h: "holds_entries ?s [0, 2]"
    by (simp add: eval_defs hasher_def hasher_init_def holds_entries_def decodable_def)
  have t: "tab (this ?s) = Some 1"
    by (simp add: eval_defs hasher_def hasher_init_def)
  show ?thesis
    using h t clear_releases_everything [of ?s "()" ?s "[0, 2]"] by auto
qed

section \<open>What an operation leaves alone\<close>

lemma frame_return [frame_intros]: "frame (return x)"
  by (simp add: frame_def return_def)

lemma frame_throw [frame_intros]: "frame (throw e)"
  by (simp add: frame_def throw_def)

lemma frame_bind [frame_intros]:
  assumes "frame f" "\<And>x. frame (g x)"
  shows "frame (bind f g)"
  using assms unfolding frame_def bind_def
  by (fastforce split: prod.splits sum.splits)

lemma frame_unwind [frame_intros]:
  assumes "frame f" "frame h"
  shows "frame (unwind f h)"
  using assms unfolding frame_def unwind_def
  by (fastforce split: prod.splits sum.splits if_splits)

lemma frame_if [frame_intros]:
  "(c \<Longrightarrow> frame f) \<Longrightarrow> (\<not> c \<Longrightarrow> frame g) \<Longrightarrow> frame (if c then f else g)"
  by simp

lemma frame_case_option [frame_intros]:
  "(x = None \<Longrightarrow> frame f) \<Longrightarrow> (\<And>y. x = Some y \<Longrightarrow> frame (g y)) \<Longrightarrow>
   frame (case x of None \<Rightarrow> f | Some y \<Rightarrow> g y)"
  by (cases x) auto

lemma frame_case_ptr [frame_intros]:
  "(p = Null \<Longrightarrow> frame f) \<Longrightarrow> (\<And>a. p = Elem a \<Longrightarrow> frame (g a)) \<Longrightarrow>
   (\<And>t. p = End t \<Longrightarrow> frame (h t)) \<Longrightarrow>
   frame (case p of Null \<Rightarrow> f | Elem a \<Rightarrow> g a | End t \<Rightarrow> h t)"
  by (cases p) auto

lemma frame_case_sum [frame_intros]:
  "(\<And>a. x = Inl a \<Longrightarrow> frame (f a)) \<Longrightarrow> (\<And>b. x = Inr b \<Longrightarrow> frame (g b)) \<Longrightarrow>
   frame (case x of Inl a \<Rightarrow> f a | Inr b \<Rightarrow> g b)"
  by (cases x) auto

lemma frame_case_prod [frame_intros]:
  "(\<And>a b. x = (a, b) \<Longrightarrow> frame (f a b)) \<Longrightarrow> frame (case x of (a, b) \<Rightarrow> f a b)"
  by (cases x) auto

lemma frame_get_this [frame_intros]: "frame get_this"
  by (simp add: frame_def get_this_def)

lemma frame_fuel [frame_intros]: "frame fuel"
  by (simp add: frame_def fuel_def)

lemma frame_allocate [frame_intros]: "frame allocate"
  by (auto simp: frame_def allocate_def tinfo_def Let_def split: if_splits)

lemma frame_load_element [frame_intros]: "frame (load_element p)"
  by (auto simp: frame_def load_element_def split: ptr.splits option.splits)

lemma frame_store_element [frame_intros]: "frame (store_element a e)"
  by (auto simp: frame_def store_element_def tinfo_def)

lemma frame_load_table [frame_intros]: "frame (load_table t)"
  by (auto simp: frame_def load_table_def split: option.splits)

lemma frame_store_table_same:
  "tsize tb' = tsize tb \<Longrightarrow> tbucket_count tb' = tbucket_count tb \<Longrightarrow>
   tables (mem s) t = Some tb \<Longrightarrow> store_table t tb' s = (r, s') \<Longrightarrow>
   this s' = this s \<and> tinfo s' = tinfo s \<and> fresh (mem s) \<le> fresh (mem s')"
  by (auto simp: store_table_def tinfo_def fun_eq_iff)

lemma frame_deallocate_element [frame_intros]: "frame (deallocate_element p)"
  by (auto simp: frame_def deallocate_element_def bind_def load_element_def tinfo_def
      split: ptr.splits option.splits)

lemma frame_get_hook [frame_intros]: "frame (get_hook p)"
  unfolding get_hook_def by (intro frame_intros)

lemma frame_get_next [frame_intros]: "frame (get_next p)"
  unfolding get_next_def by (intro frame_intros)

lemma frame_get_prev [frame_intros]: "frame (get_prev p)"
  unfolding get_prev_def by (intro frame_intros)

lemma frame_modify_table_same:
  assumes "\<And>tb. tsize (f tb) = tsize tb \<and> tbucket_count (f tb) = tbucket_count tb"
  shows "frame (modify_table t f)"
  using assms
  by (auto simp: frame_def modify_table_def bind_def load_table_def store_table_def tinfo_def fun_eq_iff
      split: option.splits)

lemma frame_set_next [frame_intros]: "frame (set_next p q)"
  by (auto simp: frame_def set_next_def bind_def load_table_def load_element_def store_table_def
      store_element_def tinfo_def throw_def fun_eq_iff split: ptr.splits option.splits)

lemma frame_set_prev [frame_intros]: "frame (set_prev p q)"
  by (auto simp: frame_def set_prev_def bind_def load_table_def load_element_def store_table_def
      store_element_def tinfo_def throw_def fun_eq_iff split: ptr.splits option.splits)

lemma frame_get_local_next [frame_intros]: "frame (get_local_next p)"
  unfolding get_local_next_def by (intro frame_intros)

lemma frame_set_local_next [frame_intros]: "frame (set_local_next p q)"
  unfolding set_local_next_def by (intro frame_intros)

lemma frame_element_key [frame_intros]: "frame (element_key p)"
  unfolding element_key_def by (intro frame_intros)

lemma frame_element_destroy [frame_intros]: "frame (element_destroy p)"
  unfolding element_destroy_def by (intro frame_intros)

lemma frame_get_bucket [frame_intros]: "frame (get_bucket t n)"
  unfolding get_bucket_def by (intro frame_intros)

lemma frame_set_bucket [frame_intros]: "frame (set_bucket t n p)"
  by (auto simp: frame_def set_bucket_def bind_def load_table_def store_table_def
      tinfo_def throw_def fun_eq_iff split: option.splits if_splits)

lemma frame_constrain_hash [frame_intros]: "frame (constrain_hash h n)"
  unfolding constrain_hash_def by (intro frame_intros)

lemma frame_lower_bound_deref [frame_intros]: "frame (lower_bound_deref ps n)"
  unfolding lower_bound_deref_def by (intro frame_intros)

lemma frame_ceil_quotient [frame_intros]: "frame (ceil_quotient x f)"
  unfolding ceil_quotient_def by (intro frame_intros)

lemma frame_object_begin [frame_intros]: "frame object_begin"
  unfolding object_begin_def by (intro frame_intros)

lemma frame_object_end [frame_intros]: "frame object_end"
  unfolding object_end_def by (intro frame_intros)

lemma frame_object_size [frame_intros]: "frame object_size"
  unfolding object_size_def by (intro frame_intros)

lemma frame_object_bucket_count [frame_intros]: "frame object_bucket_count"
  unfolding object_bucket_count_def by (intro frame_intros)

lemma frame_object_max_load_factor [frame_intros]: "frame object_max_load_factor"
  unfolding object_max_load_factor_def by (intro frame_intros)

lemma frame_assert_tab [frame_intros]: "frame assert_tab"
  unfolding assert_tab_def by (intro frame_intros)

lemma frame_deref_tab [frame_intros]: "frame deref_tab"
  unfolding deref_tab_def by (intro frame_intros)

lemma frame_object_bucket [frame_intros]: "frame (object_bucket k)"
  unfolding object_bucket_def by (intro frame_intros)

lemma frame_find_loop [frame_intros]: "frame (find_loop n k en e)"
  by (induction n arbitrary: e) (auto intro!: frame_intros)

lemma frame_object_find_impl [frame_intros]: "frame (object_find_impl k)"
  unfolding object_find_impl_def by (intro frame_intros)

lemma frame_object_find [frame_intros]: "frame (object_find k)"
  unfolding object_find_def by (intro frame_intros)

lemma frame_object_load_factor [frame_intros]: "frame object_load_factor"
  unfolding object_load_factor_def by (intro frame_intros)

lemma frame_rehash_loop [frame_intros]: "frame (rehash_loop n t e)"
  by (induction n arbitrary: e) (auto intro!: frame_intros)

lemma frame_object_allocate_impl [frame_intros]: "frame (object_allocate_impl k b)"
  unfolding object_allocate_impl_def by (intro frame_intros)

lemma frame_remove_loop [frame_intros]: "frame (remove_loop n t e it)"
  by (induction n arbitrary: it) (auto intro!: frame_intros)

lemma frame_undo_range_insert [frame_intros]: "frame (undo_range_insert u e)"
  unfolding undo_range_insert_def by (intro frame_intros)

lemma frame_undo_range_destroy_loop [frame_intros]: "frame (undo_range_destroy_loop n it)"
  by (induction n arbitrary: it) (auto intro!: frame_intros)

lemma frame_undo_range_destroy [frame_intros]: "frame (undo_range_destroy u)"
  unfolding undo_range_destroy_def by (intro frame_intros)

lemma frame_insert_range_loop [frame_intros]: "frame (insert_range_loop xs u)"
  by (induction xs arbitrary: u) (auto intro!: frame_intros)

lemma frame_node_type_destroy [frame_intros]: "frame (node_type_destroy nh)"
  unfolding node_type_destroy_def by (intro frame_intros)

lemma frame_destroy_loop [frame_intros]: "frame (destroy_loop n t it)"
  by (induction n arbitrary: it) (auto intro!: frame_intros)

lemma frame_items_loop [frame_intros]: "frame (items_loop n first lst)"
  by (induction n arbitrary: first) (auto intro!: frame_intros)

lemma frame_object_items [frame_intros]: "frame object_items"
  unfolding object_items_def by (intro frame_intros)


lemma frame_modify_head [frame_intros]: "frame (modify_table t (\<lambda>tb. tb\<lparr>head := p\<rparr>))"
  by (rule frame_modify_table_same) simp

lemma frame_rehash_transplant [frame_intros]: "frame (rehash_transplant t old tbo)"
  unfolding rehash_transplant_def by (intro frame_intros)

lemma frame_insert_link [frame_intros]: "frame (insert_link t before_e hash e)"
  unfolding insert_link_def by (intro frame_intros)

lemma frame_remove_unlink [frame_intros]: "frame (remove_unlink t e)"
  unfolding remove_unlink_def by (intro frame_intros)

lemma frame_commit_link [frame_intros]: "frame (commit_link t before_e hash it)"
  unfolding commit_link_def by (intro frame_intros)

lemma frameD:
  "frame f \<Longrightarrow> f s = (r, s') \<Longrightarrow>
   this s' = this s \<and> tinfo s' = tinfo s \<and> fresh (mem s) \<le> fresh (mem s')"
  by (simp add: frame_def)

lemma bind_Inr_iff:
  "bind f g s = (Inr r, s') \<longleftrightarrow> (\<exists>x s1. f s = (Inr x, s1) \<and> g x s1 = (Inr r, s'))"
  by (auto simp: bind_def split: prod.splits sum.splits)

lemma unwind_Inr_iff: "unwind f h s = (Inr r, s') \<longleftrightarrow> f s = (Inr r, s')"
  by (auto simp: unwind_def split: prod.splits sum.splits if_splits)

lemma return_Inr_iff [simp]: "return x s = (Inr r, s') \<longleftrightarrow> r = x \<and> s' = s"
  by (auto simp: return_def)

lemma throw_Inr_iff [simp]: "throw e s = (Inr r, s') \<longleftrightarrow> False"
  by (auto simp: throw_def)

lemma table_construct_Inr:
  assumes "table_construct n s = (Inr t, s')"
  shows "t = fresh (mem s) \<and> this s' = this s \<and> tinfo s' = (tinfo s)(t \<mapsto> (0, n)) \<and>
         fresh (mem s') = Suc (fresh (mem s))"
  using assms
  by (auto simp: table_construct_def bind_Inr_iff allocate_def store_table_def tinfo_def Let_def
        fun_eq_iff split: if_splits)

lemma load_table_Inr:
  assumes "load_table t s = (Inr tb, s')"
  shows "s' = s \<and> tables (mem s) t = Some tb \<and> tinfo s t = Some (tsize tb, tbucket_count tb)"
  using assms by (auto simp: load_table_def tinfo_def split: option.splits)

lemma modify_tsize_Inr:
  assumes "modify_table t (\<lambda>tb. tb\<lparr>tsize := f (tsize tb)\<rparr>) s = (Inr u, s')"
  shows "\<exists>n bc. tinfo s t = Some (n, bc) \<and> this s' = this s \<and>
           tinfo s' = (tinfo s)(t \<mapsto> (f n, bc)) \<and> fresh (mem s') = fresh (mem s)"
  using assms
  by (auto simp: modify_table_def bind_Inr_iff load_table_def store_table_def tinfo_def fun_eq_iff
        split: option.splits)

lemma table_destroy_Inr:
  assumes "table_destroy t s = (Inr u, s')"
  shows "this s' = this s \<and> tinfo s' = (tinfo s)(t := None) \<and> fresh (mem s') = fresh (mem s)"
  using assms
  by (auto simp: table_destroy_def deallocate_table_def bind_Inr_iff load_table_def tinfo_def
        fun_eq_iff split: option.splits)

lemma set_tab_Inr:
  assumes "set_tab x s = (Inr u, s')"
  shows "this s' = (this s)\<lparr>tab := x\<rparr> \<and> tinfo s' = tinfo s \<and> fresh (mem s') = fresh (mem s)"
  using assms by (auto simp: set_tab_def tinfo_def)

lemma get_this_Inr:
  assumes "get_this s = (Inr ob, s')"
  shows "s' = s \<and> ob = this s"
  using assms by (auto simp: get_this_def)

lemma rehash_create_Inr:
  assumes r: "rehash_create n s = (Inr u, s')" and al: "table_allocated s"
  shows "\<exists>sz bc. pview s = Some (sz, bc) \<and> pview s' = Some (sz, n) \<and>
           this s' = (this s)\<lparr>tab := Some (fresh (mem s))\<rparr> \<and>
           fresh (mem s) < fresh (mem s') \<and>
           (\<forall>t. t \<noteq> fresh (mem s) \<longrightarrow> Some t \<noteq> tab (this s) \<longrightarrow> tinfo s' t = tinfo s t)"
proof -
  from r obtain t s1 ob s2 s3 s4 tb s5 k s6 uu where
    c: "table_construct n s = (Inr t, s1)" and g: "get_this s1 = (Inr ob, s2)"
    and mid: "(case tab ob of None \<Rightarrow> return ()
           | Some old \<Rightarrow>
               bind (load_table old) (\<lambda>tbo.
               bind (modify_table t (\<lambda>tb. tb\<lparr>tsize := tsize tbo\<rparr>)) (\<lambda>u.
               bind (rehash_transplant t old tbo) (\<lambda>u.
               table_destroy old)))) s2 = (Inr uu, s3)"
    and st: "set_tab (Some t) s3 = (Inr (), s4)"
    and lt: "load_table t s4 = (Inr tb, s5)"
    and fu: "fuel s5 = (Inr k, s6)"
    and lp: "rehash_loop k t (head tb) s6 = (Inr u, s')"
    unfolding rehash_create_def bind_Inr_iff by auto
  note C = table_construct_Inr[OF c]
  note G = get_this_Inr[OF g]
  note S = set_tab_Inr[OF st]
  note L = load_table_Inr[OF lt]
  note F = frameD[OF frame_fuel fu]
  note R = frameD[OF frame_rehash_loop lp]
  have t: "t = fresh (mem s)" using C by simp
  show ?thesis
  proof (cases "tab (this s)")
    case None
    with mid G C have s3: "s3 = s1" by simp
    have "pview s = Some (0, 0)" using None by (simp add: pview_def)
    moreover have "pview s' = Some (0, n)"
      using R F L S s3 C by (simp add: pview_def)
    moreover have "this s' = (this s)\<lparr>tab := Some (fresh (mem s))\<rparr>"
      using R F L S s3 C by simp
    moreover have "fresh (mem s) < fresh (mem s')"
      using R F L S s3 C by simp
    moreover have "\<forall>t'. t' \<noteq> fresh (mem s) \<longrightarrow> tinfo s' t' = tinfo s t'"
      using R F L S s3 C by simp
    ultimately show ?thesis by simp
  next
    case (Some old)
    with al have old: "old < fresh (mem s)" by (simp add: table_allocated_def)
    then have ne: "old \<noteq> t" using t by simp
    from mid Some G C obtain tbo sa sb sc where
      lo: "load_table old s1 = (Inr tbo, sa)"
      and mo: "modify_table t (\<lambda>tb. tb\<lparr>tsize := (\<lambda>_. tsize tbo) (tsize tb)\<rparr>) sa = (Inr (), sb)"
      and tr: "rehash_transplant t old tbo sb = (Inr (), sc)"
      and de: "table_destroy old sc = (Inr uu, s3)"
      by (auto simp: bind_Inr_iff)
    note LO = load_table_Inr[OF lo]
    note MO = modify_tsize_Inr[OF mo]
    note TR = frameD[OF frame_rehash_transplant tr]
    note DE = table_destroy_Inr[OF de]
    have o1: "tinfo s old = Some (tsize tbo, tbucket_count tbo)"
      using LO C ne by (auto simp: fun_upd_def split: if_splits)
    have "pview s = Some (tsize tbo, tbucket_count tbo)"
      using Some o1 by (simp add: pview_def)
    moreover have ti: "tinfo s' = (tinfo s)(t \<mapsto> (tsize tbo, n), old := None)"
      using R F L S DE TR MO LO C ne by (auto simp: fun_eq_iff)
    moreover have th: "this s' = (this s)\<lparr>tab := Some (fresh (mem s))\<rparr>"
      using R F L S DE TR MO LO C by simp
    moreover have "pview s' = Some (tsize tbo, n)"
      using ti th t ne by (simp add: pview_def)
    moreover have "fresh (mem s) < fresh (mem s')"
      using R F L S DE TR MO LO C by simp
    moreover have "\<forall>t'. t' \<noteq> fresh (mem s) \<longrightarrow> Some t' \<noteq> tab (this s) \<longrightarrow> tinfo s' t' = tinfo s t'"
      using ti t Some by auto
    ultimately show ?thesis by simp
  qed
qed


lemma object_size_eq:
  "object_size s = (case pview s of None \<Rightarrow> (Inl undefined_behaviour, s)
                                  | Some v \<Rightarrow> (Inr (fst v), s))"
  by (auto simp: object_size_def bind_def get_this_def return_def load_table_def pview_def tinfo_def
        split: option.splits)

lemma object_bucket_count_eq:
  "object_bucket_count s = (case pview s of None \<Rightarrow> (Inl undefined_behaviour, s)
                                  | Some v \<Rightarrow> (Inr (snd v), s))"
  by (auto simp: object_bucket_count_def bind_def get_this_def return_def load_table_def pview_def
        tinfo_def split: option.splits)

lemma object_max_load_factor_eq: "object_max_load_factor s = (Inr (mf (this s)), s)"
  by (simp add: object_max_load_factor_def bind_def get_this_def return_def)

lemma lower_bound_deref_Inr:
  assumes "lower_bound_deref ps n s = (Inr p, s')"
  shows "s' = s \<and> List.find (\<lambda>q. n \<le> q) ps = Some p \<and> p \<in> set ps \<and> n \<le> p"
  using assms
  by (auto simp: lower_bound_deref_def find_Some_iff split: option.splits)

lemma ceil_quotient_Inr:
  assumes "ceil_quotient x f s = (Inr c, s')"
  shows "s' = s \<and> f \<noteq> 0 \<and> c = nat \<lceil>x / f\<rceil> \<and> 0 \<le> \<lceil>x / f\<rceil>"
  using assms by (auto simp: ceil_quotient_def split: if_splits)

lemma ceil_bound:
  fixes f :: rat
  assumes "0 < f" "nat \<lceil>of_nat n / f\<rceil> \<le> b"
  shows "of_nat n \<le> of_nat b * f"
proof -
  have "of_nat n / f \<le> of_int \<lceil>of_nat n / f\<rceil>" by (rule le_of_int_ceiling)
  also have "\<dots> \<le> of_int (int b)"
    using assms(2) by (intro of_int_le_iff[THEN iffD2]) linarith
  finally have "of_nat n / f \<le> of_nat b" by simp
  then show ?thesis using assms(1) by (simp add: pos_divide_le_eq)
qed

lemma object_rehash_Inr:
  assumes r: "object_rehash n0 s = (Inr u, s')" and al: "table_allocated s"
  shows "\<exists>sz bc bc' n. pview s = Some (sz, bc) \<and> pview s' = Some (sz, bc') \<and>
           List.find (\<lambda>q. n0 \<le> q) get_primes = Some n \<and>
           bc \<le> bc' \<and> n0 \<le> bc' \<and>
           (bc' = bc \<and> s' = s \<or> bc' \<in> set get_primes \<and> bc < bc') \<and>
           (n = bc \<longrightarrow> s' = s) \<and>
           (n < bc \<longrightarrow> mf (this s) \<noteq> 0 \<and> nat \<lceil>of_nat sz / mf (this s)\<rceil> \<le> bc') \<and>
           mf (this s') = mf (this s) \<and> sp (this s') = sp (this s) \<and>
           (tab (this s') = tab (this s) \<or> tab (this s') = Some (fresh (mem s))) \<and>
           table_allocated s' \<and> fresh (mem s) \<le> fresh (mem s')"
proof -
  from r obtain n s1 where lb: "lower_bound_deref get_primes n0 s = (Inr n, s1)"
    and rest: "bind object_bucket_count (\<lambda>bc.
       if n = bc then return ()
       else if n < bc
       then bind object_size (\<lambda>sz.
            bind object_max_load_factor (\<lambda>f.
            bind (ceil_quotient (of_nat sz) f) (\<lambda>c.
            bind (lower_bound_deref get_primes c) (\<lambda>p.
              if max n p \<le> bc then return ()
              else rehash_create (max n p)))))
       else rehash_create n) s1 = (Inr u, s')"
    unfolding object_rehash_def by (subst (asm) bind_Inr_iff) auto
  note LB = lower_bound_deref_Inr[OF lb]
  from rest LB obtain sz bc where pv: "pview s = Some (sz, bc)"
    by (cases "pview s") (auto simp: bind_Inr_iff object_bucket_count_eq)
  have created: "\<exists>sz bc bc' n. pview s = Some (sz, bc) \<and> pview s' = Some (sz, bc') \<and>
           List.find (\<lambda>q. n0 \<le> q) get_primes = Some n \<and>
           bc \<le> bc' \<and> n0 \<le> bc' \<and>
           (bc' = bc \<and> s' = s \<or> bc' \<in> set get_primes \<and> bc < bc') \<and>
           (n = bc \<longrightarrow> s' = s) \<and>
           (n < bc \<longrightarrow> mf (this s) \<noteq> 0 \<and> nat \<lceil>of_nat sz / mf (this s)\<rceil> \<le> bc') \<and>
           mf (this s') = mf (this s) \<and> sp (this s') = sp (this s) \<and>
           (tab (this s') = tab (this s) \<or> tab (this s') = Some (fresh (mem s))) \<and>
           table_allocated s' \<and> fresh (mem s) \<le> fresh (mem s')"
    if rc: "rehash_create m s = (Inr u, s')" and m: "m \<in> set get_primes" "bc < m" "n \<le> m"
       and cl: "n < bc \<longrightarrow> mf (this s) \<noteq> 0 \<and> nat \<lceil>of_nat sz / mf (this s)\<rceil> \<le> m"
       and nb: "n \<noteq> bc"
    for m
  proof -
    from rehash_create_Inr[OF rc al] pv
    have "pview s' = Some (sz, m)" "this s' = (this s)\<lparr>tab := Some (fresh (mem s))\<rparr>"
      "fresh (mem s) < fresh (mem s')" by auto
    then show ?thesis
      using pv LB m cl nb by (auto simp: table_allocated_def)
  qed
  show ?thesis
  proof (cases "n = bc")
    case True
    with rest LB pv have "s' = s" by (auto simp: bind_Inr_iff object_bucket_count_eq)
    then show ?thesis using pv LB True al by auto
  next
    case nb: False
    show ?thesis
    proof (cases "n < bc")
      case False
      with nb rest LB pv have "rehash_create n s = (Inr u, s')"
        by (auto simp: bind_Inr_iff object_bucket_count_eq)
      then show ?thesis using False nb LB by (intro created) auto
    next
      case True
      with nb rest LB pv obtain c sa p sb where
        cq: "ceil_quotient (of_nat sz) (mf (this s)) s = (Inr c, sa)"
        and lp: "lower_bound_deref get_primes c sa = (Inr p, sb)"
        and fin: "(if max n p \<le> bc then return () else rehash_create (max n p)) sb = (Inr u, s')"
        by (auto simp: bind_Inr_iff object_bucket_count_eq object_size_eq object_max_load_factor_eq)
      note CQ = ceil_quotient_Inr[OF cq]
      note LP = lower_bound_deref_Inr[OF lp]
      have sb: "sb = s" using CQ LP by simp
      show ?thesis
      proof (cases "max n p \<le> bc")
        case le: True
        with fin sb have "s' = s" by simp
        then show ?thesis using pv LB True al le CQ LP by auto
      next
        case gt: False
        with fin sb have rc: "rehash_create (max n p) s = (Inr u, s')"
          by (auto split: if_splits)
        have "max n p \<in> set get_primes" using LB LP by (auto simp: max_def)
        then show ?thesis using rc gt True nb CQ LP by (intro created) auto
      qed
    qed
  qed
qed

section \<open>The load policy, operation by operation\<close>

subsection \<open>\<^verbatim>\<open>rehash\<close>, \<^verbatim>\<open>reserve\<close> and the load factor\<close>

lemma load_ok_pview:
  "load_ok s \<longleftrightarrow> (\<exists>sz bc. pview s = Some (sz, bc) \<and> bc \<in> set get_primes \<and>
                      of_nat sz \<le> of_nat bc * mf (this s))"
  by (cases "pview s") (auto simp: load_ok_def object_size_eq object_bucket_count_eq)

lemma pview_frame:
  assumes "frame f" "f s = (r, s')"
  shows "pview s' = pview s" "this s' = this s" "fresh (mem s) \<le> fresh (mem s')"
  using frameD[OF assms] by (auto simp: pview_def split: option.splits)

lemma table_allocated_mono:
  "table_allocated s \<Longrightarrow> this s' = this s \<Longrightarrow> fresh (mem s) \<le> fresh (mem s') \<Longrightarrow>
   table_allocated s'"
  by (auto simp: table_allocated_def)

lemma policy_ok_frame:
  assumes "frame f" "f s = (r, s')" "policy_ok s"
  shows "policy_ok s'"
  using assms pview_frame[OF assms(1,2)]
  by (auto simp: policy_ok_def load_ok_pview intro: table_allocated_mono)

text \<open>rehash\<close>

lemma policy_ok_rehash:
  assumes "object_rehash n s = (Inr u, s')" "policy_ok s"
  shows "policy_ok s'"
proof -
  from assms(2) have al: "table_allocated s" by (simp add: policy_ok_def)
  from object_rehash_Inr[OF assms(1) al] obtain sz bc bc' where
    pv: "pview s = Some (sz, bc)" "pview s' = Some (sz, bc')" and le: "bc \<le> bc'"
    and pr: "bc' = bc \<or> bc' \<in> set get_primes"
    and mf: "mf (this s') = mf (this s)" and al': "table_allocated s'"
    by blast
  from assms(2) pv have ok: "bc \<in> set get_primes" "of_nat sz \<le> of_nat bc * mf (this s)"
    "0 < mf (this s)"
    by (auto simp: policy_ok_def load_ok_pview)
  have "of_nat bc * mf (this s) \<le> of_nat bc' * mf (this s)"
    using le ok(3) by (simp add: mult_right_mono)
  with ok(2) have "of_nat sz \<le> of_nat bc' * mf (this s)" by (rule order_trans)
  then show ?thesis
    using pv pr ok mf al' by (auto simp: policy_ok_def load_ok_pview)
qed

lemma policy_ok_reserve:
  assumes "object_reserve n s = (Inr u, s')" "policy_ok s"
  shows "policy_ok s'"
proof -
  from assms(1) obtain c where "object_rehash c s = (Inr u, s')"
    by (auto simp: object_reserve_def bind_Inr_iff object_max_load_factor_eq dest!: ceil_quotient_Inr)
  then show ?thesis using assms(2) by (rule policy_ok_rehash)
qed

lemma object_load_factor_Inr:
  assumes "object_load_factor s = (Inr lf, s')"
  shows "s' = s \<and> (\<exists>sz bc. pview s = Some (sz, bc) \<and>
           (if tab (this s) = None then lf = 0 else bc \<noteq> 0 \<and> lf = of_nat sz / of_nat bc))"
  using assms
  by (cases "pview s")
     (auto simp: object_load_factor_def bind_Inr_iff get_this_def object_size_eq
        object_bucket_count_eq pview_def split: option.splits if_splits)

lemma find_primes_zero: "List.find (\<lambda>q. 0 \<le> q) get_primes = Some 0"
  by (simp add: get_primes_def)

lemma policy_ok_set_max_load_factor:
  assumes run: "object_set_max_load_factor f s = (Inr u, s')" and ok: "policy_ok s" and f: "0 < f"
  shows "policy_ok s'"
proof -
  let ?s1 = "s\<lparr>this := (this s)\<lparr>mf := f\<rparr>\<rparr>"
  from run obtain lf where lf: "object_load_factor ?s1 = (Inr lf, ?s1)"
    and fin: "(if lf > f then object_rehash 0 else return ()) ?s1 = (Inr u, s')"
    by (auto simp: object_set_max_load_factor_def bind_Inr_iff set_mf_def
          dest: object_load_factor_Inr)
  have pv1: "pview ?s1 = pview s" by (auto simp: pview_def tinfo_def split: option.splits)
  have al1: "table_allocated ?s1" using ok by (simp add: policy_ok_def table_allocated_def)
  from object_load_factor_Inr[OF lf] pv1 obtain sz bc where pv: "pview s = Some (sz, bc)"
    and lfv: "if tab (this s) = None then lf = 0 else bc \<noteq> 0 \<and> lf = of_nat sz / of_nat bc"
    by auto
  from ok pv have bcp: "bc \<in> set get_primes" by (auto simp: policy_ok_def load_ok_pview)
  show ?thesis
  proof (cases "lf > f")
    case False
    with fin have s': "s' = ?s1" by simp
    have "of_nat sz \<le> of_nat bc * f"
    proof (cases "tab (this s)")
      case None
      with pv show ?thesis by (simp add: pview_def)
    next
      case (Some t)
      with lfv have "bc \<noteq> 0" "lf = of_nat sz / of_nat bc" by auto
      with False have "(of_nat sz :: rat) / of_nat bc \<le> f" "(0::rat) < of_nat bc" by auto
      then show ?thesis by (simp add: pos_divide_le_eq mult.commute)
    qed
    then show ?thesis
      using s' pv pv1 bcp al1 f by (auto simp: policy_ok_def load_ok_pview)
  next
    case True
    with fin have rh: "object_rehash 0 ?s1 = (Inr u, s')" by simp
    from True f lfv have nz: "bc \<noteq> 0" by (auto split: if_splits)
    from object_rehash_Inr[OF rh al1] pv pv1 find_primes_zero obtain bc' where
      pv': "pview s' = Some (sz, bc')" and pr: "bc' = bc \<or> bc' \<in> set get_primes"
      and cl: "nat \<lceil>of_nat sz / f\<rceil> \<le> bc'"
      and mf': "mf (this s') = f" and al': "table_allocated s'"
      using nz by auto
    have "of_nat sz \<le> of_nat bc' * f" using f cl by (rule ceil_bound)
    then show ?thesis
      using pv' pr bcp mf' al' f by (auto simp: policy_ok_def load_ok_pview)
  qed
qed

subsection \<open>Inserting one entry\<close>

lemma object_end_eq:
  "object_end s = (Inr (case tab (this s) of None \<Rightarrow> Null | Some t \<Rightarrow> End t), s)"
  by (simp add: object_end_def bind_def get_this_def return_def split: option.splits)

lemma deref_tab_Inr:
  assumes "deref_tab s = (Inr t, s')"
  shows "s' = s \<and> tab (this s) = Some t"
  using assms by (auto simp: deref_tab_def bind_Inr_iff get_this_def split: option.splits)

text \<open>The first part of insert leaves room for one more entry.\<close>

lemma insert_grow_Inr:
  assumes run: "insert_grow b0 s = (Inr b, s')" and ok: "policy_ok s"
  shows "\<exists>sz bc. pview s' = Some (sz, bc) \<and> bc \<in> set get_primes \<and>
           of_nat (sz + 1) \<le> of_nat bc * mf (this s') \<and> 0 < mf (this s') \<and>
           table_allocated s' \<and> object_size s = (Inr sz, s)"
proof -
  from ok obtain sz bc where pv: "pview s = Some (sz, bc)" and bcp: "bc \<in> set get_primes"
    and f: "0 < mf (this s)" and al: "table_allocated s"
    by (auto simp: policy_ok_def load_ok_pview)
  let ?f = "mf (this s)"
  show ?thesis
  proof (cases "of_nat (sz + 1) > of_nat bc * ?f")
    case False
    with run pv have "s' = s"
      by (auto simp: insert_grow_def bind_Inr_iff object_size_eq object_bucket_count_eq
            object_max_load_factor_eq)
    with False pv bcp f al show ?thesis by (auto simp: not_less object_size_eq)
  next
    case True
    with run pv obtain c s1 s2 s3 where
      cq: "ceil_quotient (of_nat (sz + 1)) ?f s = (Inr c, s1)"
      and rh: "object_rehash c s1 = (Inr (), s2)"
      and fin: "(if b0 = (case tab (this s) of None \<Rightarrow> Null | Some t \<Rightarrow> End t)
                 then object_end else return b0) s2 = (Inr b, s3)" and s3: "s3 = s'"
      by (auto simp: insert_grow_def bind_Inr_iff object_size_eq object_bucket_count_eq
            object_max_load_factor_eq object_end_eq)
    note CQ = ceil_quotient_Inr[OF cq]
    have s1: "s1 = s" using CQ by simp
    have s2: "s2 = s'" using fin s3 by (auto simp: object_end_eq split: if_splits)
    from object_rehash_Inr[OF rh[unfolded s1 s2] al] pv obtain bc' where
      pv': "pview s' = Some (sz, bc')" and pr: "bc' = bc \<or> bc' \<in> set get_primes"
      and ge: "c \<le> bc'" and mf': "mf (this s') = ?f" and al': "table_allocated s'"
      by auto
    have "nat \<lceil>of_nat (sz + 1) / ?f\<rceil> \<le> bc'" using ge CQ by simp
    with f have "of_nat (sz + 1) \<le> of_nat bc' * ?f" by (rule ceil_bound)
    then show ?thesis
      using pv pv' pr bcp mf' al' f by (auto simp: object_size_eq)
  qed
qed

lemma pview_modify_tsize:
  assumes "modify_table t (\<lambda>tb. tb\<lparr>tsize := g (tsize tb)\<rparr>) s = (Inr u, s')"
    and "tab (this s) = Some t" and "pview s = Some (sz, bc)"
  shows "pview s' = Some (g sz, bc) \<and> this s' = this s \<and> fresh (mem s') = fresh (mem s)"
  using modify_tsize_Inr[OF assms(1)] assms(2,3) by (auto simp: pview_def)

lemma object_insert_Inr:
  assumes run: "object_insert b0 h e s = (Inr u, s')" and ok: "policy_ok s"
  shows "policy_ok s' \<and> (\<exists>sz. object_size s = (Inr sz, s) \<and> object_size s' = (Inr (sz + 1), s'))"
proof -
  from run obtain b s1 t s2 s3 where
    g: "insert_grow b0 s = (Inr b, s1)" and d: "deref_tab s1 = (Inr t, s2)"
    and l: "insert_link t b h e s2 = (Inr (), s3)"
    and m: "modify_table t (\<lambda>tb. tb\<lparr>tsize := (\<lambda>n. n + 1) (tsize tb)\<rparr>) s3 = (Inr u, s')"
    by (auto simp: object_insert_def unwind_Inr_iff bind_Inr_iff)
  from insert_grow_Inr[OF g ok] obtain sz bc where
    pv1: "pview s1 = Some (sz, bc)" and bcp: "bc \<in> set get_primes"
    and room: "of_nat (sz + 1) \<le> of_nat bc * mf (this s1)" and f: "0 < mf (this s1)"
    and al: "table_allocated s1" and sz: "object_size s = (Inr sz, s)"
    by blast
  note D = deref_tab_Inr[OF d]
  note L = pview_frame[OF frame_insert_link l]
  have t3: "tab (this s3) = Some t" and pv3: "pview s3 = Some (sz, bc)"
    using D L pv1 by auto
  note M = pview_modify_tsize[OF m t3 pv3]
  have "table_allocated s'"
    using al D L M by (auto simp: table_allocated_def)
  then show ?thesis
    using M L D bcp room f sz by (auto simp: policy_ok_def load_ok_pview object_size_eq)
qed

lemma policy_ok_emplace:
  assumes run: "object_emplace pos k b s = (Inr r, s')" and ok: "policy_ok s"
  shows "policy_ok s'"
proof -
  from run obtain res s1 where f: "object_find_impl k s = (Inr res, s1)"
    and rest: "(if fst res \<noteq> Null then return (fst res, False)
       else bind (object_allocate_impl k b) (\<lambda>e.
            bind (object_insert pos (snd res) e) (\<lambda>u.
            return (e, True)))) s1 = (Inr r, s')"
    by (auto simp: object_emplace_def bind_Inr_iff)
  have ok1: "policy_ok s1" using frame_object_find_impl f ok by (rule policy_ok_frame)
  show ?thesis
  proof (cases "fst res \<noteq> Null")
    case True
    with rest ok1 show ?thesis by simp
  next
    case False
    with rest obtain e s2 where a: "object_allocate_impl k b s1 = (Inr e, s2)"
      and i: "object_insert pos (snd res) e s2 = (Inr (), s')"
      by (auto simp: bind_Inr_iff)
    have "policy_ok s2" using frame_object_allocate_impl a ok1 by (rule policy_ok_frame)
    with i show ?thesis by (auto dest: object_insert_Inr)
  qed
qed

lemma policy_ok_insert_node:
  assumes run: "object_insert_node pos nh s = (Inr r, s')" and ok: "policy_ok s"
  shows "policy_ok s'"
proof (cases "n_e nh = Null")
  case True
  with run have "s' = s" by (auto simp: object_insert_node_def bind_Inr_iff object_end_eq)
  with ok show ?thesis by simp
next
  case False
  with run obtain k s1 res s2 where
    k: "element_key (n_e nh) s = (Inr k, s1)" and f: "object_find_impl k s1 = (Inr res, s2)"
    and rest: "(if fst res \<noteq> Null
              then return (\<lparr>position = fst res, node = nh, inserted = False\<rparr>, node_type_empty)
              else bind (object_insert pos (snd res) (n_e nh)) (\<lambda>u.
                   return (\<lparr>position = n_e nh, node = node_type_empty, inserted = True\<rparr>,
                           nh\<lparr>n_e := Null\<rparr>))) s2 = (Inr r, s')"
    by (auto simp: object_insert_node_def bind_Inr_iff get_this_def split: if_splits)
  have ok1: "policy_ok s1" using frame_element_key k ok by (rule policy_ok_frame)
  have ok2: "policy_ok s2" using frame_object_find_impl f ok1 by (rule policy_ok_frame)
  show ?thesis
  proof (cases "fst res \<noteq> Null")
    case True
    with rest ok2 show ?thesis by simp
  next
    case False
    with rest obtain u where "object_insert pos (snd res) (n_e nh) s2 = (Inr u, s')"
      by (auto simp: bind_Inr_iff)
    with ok2 show ?thesis by (auto dest: object_insert_Inr)
  qed
qed

subsection \<open>Erasing and extracting\<close>

lemma same_buckets_trans:
  "same_buckets s s1 \<Longrightarrow> same_buckets s1 s2 \<Longrightarrow> same_buckets s s2"
  by (auto simp: same_buckets_def)

lemma same_buckets_frame_then:
  assumes "frame f" "f s = (r, s1)" "same_buckets s1 s2"
  shows "same_buckets s s2"
  using pview_frame[OF assms(1,2)] assms(3) by (auto simp: same_buckets_def)

lemma same_buckets_then_frame:
  assumes "same_buckets s s1" "frame f" "f s1 = (r, s2)"
  shows "same_buckets s s2"
  using pview_frame[OF assms(2,3)] assms(1) by (auto simp: same_buckets_def)

lemma object_remove_Inr:
  assumes "object_remove e s = (Inr u, s')"
  shows "same_buckets s s'"
proof -
  from assms obtain t s1 s2 where d: "deref_tab s = (Inr t, s1)"
    and ul: "remove_unlink t e s1 = (Inr (), s2)"
    and m: "modify_table t (\<lambda>tb. tb\<lparr>tsize := (\<lambda>n. if n = 0 then 2 ^ 64 - 1 else n - 1) (tsize tb)\<rparr>) s2
             = (Inr u, s')"
    by (auto simp: object_remove_def bind_Inr_iff)
  note D = deref_tab_Inr[OF d]
  note U = pview_frame[OF frame_remove_unlink ul]
  from modify_tsize_Inr[OF m] obtain n bc where "tinfo s2 t = Some (n, bc)" by auto
  then have pv2: "pview s2 = Some (n, bc)" and t2: "tab (this s2) = Some t"
    using D U by (auto simp: pview_def)
  from pview_modify_tsize[OF m t2 pv2] pv2 D U show ?thesis
    by (auto simp: same_buckets_def)
qed

lemma object_erase_Inr:
  assumes "object_erase pos s = (Inr r, s')"
  shows "same_buckets s s'"
proof -
  from assms obtain p s1 s2 where a: "get_next pos s = (Inr p, s1)"
    and b: "object_remove pos s1 = (Inr (), s2)"
    and c: "element_destroy pos s2 = (Inr (), s')"
    by (auto simp: object_erase_def bind_Inr_iff)
  show ?thesis
    by (rule same_buckets_frame_then[OF frame_get_next a])
       (rule same_buckets_then_frame[OF object_remove_Inr[OF b] frame_element_destroy c])
qed

lemma same_buckets_refl: "pview s = Some v \<Longrightarrow> same_buckets s s"
  by (cases v) (auto simp: same_buckets_def)

lemma same_buckets_pview: "same_buckets s s' \<Longrightarrow> \<exists>v. pview s' = Some v"
  by (auto simp: same_buckets_def)

lemma erase_range_loop_Inr:
  assumes "erase_range_loop n first lst s = (Inr r, s')" "pview s = Some v"
  shows "same_buckets s s'"
  using assms
proof (induction n arbitrary: first s v)
  case 0
  then show ?case by simp
next
  case (Suc n)
  show ?case
  proof (cases "first = lst")
    case True
    with Suc.prems show ?thesis by (simp add: same_buckets_refl)
  next
    case False
    with Suc.prems(1) obtain p s1 s2 s3 where a: "get_next first s = (Inr p, s1)"
      and b: "object_remove first s1 = (Inr (), s2)"
      and c: "element_destroy first s2 = (Inr (), s3)"
      and d: "erase_range_loop n p lst s3 = (Inr r, s')"
      by (auto simp: bind_Inr_iff)
    have one: "same_buckets s s3"
      by (rule same_buckets_frame_then[OF frame_get_next a])
         (rule same_buckets_then_frame[OF object_remove_Inr[OF b] frame_element_destroy c])
    from same_buckets_pview[OF one] obtain w where "pview s3 = Some w" ..
    with d have "same_buckets s3 s'" by (rule Suc.IH)
    with one show ?thesis by (rule same_buckets_trans)
  qed
qed

lemma object_erase_range_Inr:
  assumes "object_erase_range first lst s = (Inr r, s')" "pview s = Some v"
  shows "same_buckets s s'"
proof -
  from assms(1) obtain n where "erase_range_loop n first lst s = (Inr r, s')"
    by (auto simp: object_erase_range_def bind_Inr_iff fuel_def simp del: erase_range_loop.simps)
  then show ?thesis using assms(2) by (rule erase_range_loop_Inr)
qed

lemma object_erase_key_Inr:
  assumes "object_erase_key k s = (Inr r, s')" "pview s = Some v"
  shows "same_buckets s s'"
proof -
  from assms(1) obtain it s1 where f: "object_find k s = (Inr it, s1)"
    and rest: "(if it = (case tab (this s1) of None \<Rightarrow> Null | Some t \<Rightarrow> End t) then return 0
       else bind (object_erase it) (\<lambda>x. return 1)) s1 = (Inr r, s')"
    by (auto simp: object_erase_key_def bind_Inr_iff object_end_eq)
  note F = pview_frame[OF frame_object_find f]
  have "same_buckets s1 s'"
  proof (cases "it = (case tab (this s1) of None \<Rightarrow> Null | Some t \<Rightarrow> End t)")
    case True
    with rest F assms(2) show ?thesis by (simp add: same_buckets_refl)
  next
    case False
    with rest obtain x where "object_erase it s1 = (Inr x, s')" by (auto simp: bind_Inr_iff)
    then show ?thesis by (rule object_erase_Inr)
  qed
  with frame_object_find f show ?thesis by (rule same_buckets_frame_then)
qed

lemma object_extract_Inr:
  assumes "object_extract pos s = (Inr r, s')"
  shows "same_buckets s s'"
proof -
  from assms obtain s1 where "object_remove pos s = (Inr (), s1)"
    and "get_this s1 = (Inr (this s1), s')"
    by (auto simp: object_extract_def bind_Inr_iff object_end_eq get_this_def split: if_splits)
  then show ?thesis
    by (auto simp: get_this_def dest: object_remove_Inr)
qed

lemma object_extract_key_Inr:
  assumes "object_extract_key k s = (Inr r, s')" "pview s = Some v"
  shows "same_buckets s s'"
proof -
  from assms(1) obtain it s1 where f: "object_find k s = (Inr it, s1)"
    and rest: "(if it = (case tab (this s1) of None \<Rightarrow> Null | Some t \<Rightarrow> End t)
       then return node_type_empty else object_extract it) s1 = (Inr r, s')"
    by (auto simp: object_extract_key_def bind_Inr_iff object_end_eq)
  note F = pview_frame[OF frame_object_find f]
  have "same_buckets s1 s'"
  proof (cases "it = (case tab (this s1) of None \<Rightarrow> Null | Some t \<Rightarrow> End t)")
    case True
    with rest F assms(2) show ?thesis by (simp add: same_buckets_refl)
  next
    case False
    with rest have "object_extract it s1 = (Inr r, s')" by simp
    then show ?thesis by (rule object_extract_Inr)
  qed
  with frame_object_find f show ?thesis by (rule same_buckets_frame_then)
qed

text \<open>With the same buckets, a size that is not above a bound the buckets allow is fine.\<close>

lemma policy_ok_same_buckets:
  assumes ok: "policy_ok s" and sb: "same_buckets s s'"
    and sz: "\<And>n n'. object_size s = (Inr n, s) \<Longrightarrow> object_size s' = (Inr n', s') \<Longrightarrow> n' \<le> n"
  shows "policy_ok s'"
proof -
  from sb obtain n n' bc where pv: "pview s = Some (n, bc)" "pview s' = Some (n', bc)"
    and th: "this s' = this s" and fr: "fresh (mem s) \<le> fresh (mem s')"
    by (auto simp: same_buckets_def)
  from sz[of n n'] pv have le: "n' \<le> n" by (simp add: object_size_eq)
  from ok pv have "bc \<in> set get_primes" "of_nat n \<le> of_nat bc * mf (this s)" "0 < mf (this s)"
    "table_allocated s"
    by (auto simp: policy_ok_def load_ok_pview)
  moreover have "(of_nat n' :: rat) \<le> of_nat n" using le by simp
  ultimately show ?thesis
    using pv th fr by (auto simp: policy_ok_def load_ok_pview table_allocated_def)
qed

section \<open>The order links, operation by operation\<close>

subsection \<open>Operations that write no link\<close>

lemma pureD: "pure f \<Longrightarrow> f s = (r, s') \<Longrightarrow> s' = s"
  by (simp add: pure_def)

lemma pure_return [pure_intros]: "pure (return x)"
  by (simp add: pure_def return_def)

lemma pure_throw [pure_intros]: "pure (throw e)"
  by (simp add: pure_def throw_def)

lemma pure_bind [pure_intros]:
  assumes "pure f" "\<And>x. pure (g x)"
  shows "pure (bind f g)"
  using assms unfolding pure_def bind_def
  by (fastforce split: prod.splits sum.splits)

lemma pure_if [pure_intros]:
  "(c \<Longrightarrow> pure f) \<Longrightarrow> (\<not> c \<Longrightarrow> pure g) \<Longrightarrow> pure (if c then f else g)"
  by simp

lemma pure_case_option [pure_intros]:
  "(x = None \<Longrightarrow> pure f) \<Longrightarrow> (\<And>y. x = Some y \<Longrightarrow> pure (g y)) \<Longrightarrow>
   pure (case x of None \<Rightarrow> f | Some y \<Rightarrow> g y)"
  by (cases x) auto

lemma pure_case_ptr [pure_intros]:
  "(p = Null \<Longrightarrow> pure f) \<Longrightarrow> (\<And>a. p = Elem a \<Longrightarrow> pure (g a)) \<Longrightarrow>
   (\<And>t. p = End t \<Longrightarrow> pure (h t)) \<Longrightarrow>
   pure (case p of Null \<Rightarrow> f | Elem a \<Rightarrow> g a | End t \<Rightarrow> h t)"
  by (cases p) auto

lemma pure_case_prod [pure_intros]:
  "(\<And>a b. x = (a, b) \<Longrightarrow> pure (f a b)) \<Longrightarrow> pure (case x of (a, b) \<Rightarrow> f a b)"
  by (cases x) auto

lemma pure_get_this [pure_intros]: "pure get_this"
  by (simp add: pure_def get_this_def)

lemma pure_fuel [pure_intros]: "pure fuel"
  by (simp add: pure_def fuel_def)

lemma pure_load_element [pure_intros]: "pure (load_element p)"
  by (auto simp: pure_def load_element_def split: ptr.splits option.splits)

lemma pure_load_table [pure_intros]: "pure (load_table t)"
  by (auto simp: pure_def load_table_def split: option.splits)

lemma pure_get_hook [pure_intros]: "pure (get_hook p)"
  unfolding get_hook_def by (intro pure_intros)

lemma pure_get_next [pure_intros]: "pure (get_next p)"
  unfolding get_next_def by (intro pure_intros)

lemma pure_get_prev [pure_intros]: "pure (get_prev p)"
  unfolding get_prev_def by (intro pure_intros)

lemma pure_get_local_next [pure_intros]: "pure (get_local_next p)"
  unfolding get_local_next_def by (intro pure_intros)

lemma pure_element_key [pure_intros]: "pure (element_key p)"
  unfolding element_key_def by (intro pure_intros)

lemma pure_get_bucket [pure_intros]: "pure (get_bucket t n)"
  unfolding get_bucket_def by (intro pure_intros)

lemma pure_constrain_hash [pure_intros]: "pure (constrain_hash h n)"
  unfolding constrain_hash_def by (intro pure_intros)

lemma pure_lower_bound_deref [pure_intros]: "pure (lower_bound_deref ps n)"
  unfolding lower_bound_deref_def by (intro pure_intros)

lemma pure_ceil_quotient [pure_intros]: "pure (ceil_quotient x f)"
  unfolding ceil_quotient_def by (intro pure_intros)

lemma pure_object_begin [pure_intros]: "pure object_begin"
  unfolding object_begin_def by (intro pure_intros)

lemma pure_object_end [pure_intros]: "pure object_end"
  unfolding object_end_def by (intro pure_intros)

lemma pure_object_size [pure_intros]: "pure object_size"
  unfolding object_size_def by (intro pure_intros)

lemma pure_object_bucket_count [pure_intros]: "pure object_bucket_count"
  unfolding object_bucket_count_def by (intro pure_intros)

lemma pure_object_max_load_factor [pure_intros]: "pure object_max_load_factor"
  unfolding object_max_load_factor_def by (intro pure_intros)

lemma pure_assert_tab [pure_intros]: "pure assert_tab"
  unfolding assert_tab_def by (intro pure_intros)

lemma pure_deref_tab [pure_intros]: "pure deref_tab"
  unfolding deref_tab_def by (intro pure_intros)

lemma pure_object_bucket [pure_intros]: "pure (object_bucket k)"
  unfolding object_bucket_def by (intro pure_intros)

lemma pure_find_loop [pure_intros]: "pure (find_loop n k en e)"
  by (induction n arbitrary: e) (auto intro!: pure_intros)

lemma pure_object_find_impl [pure_intros]: "pure (object_find_impl k)"
  unfolding object_find_impl_def by (intro pure_intros)

lemma pure_object_find [pure_intros]: "pure (object_find k)"
  unfolding object_find_def by (intro pure_intros)

lemma pure_object_count [pure_intros]: "pure (object_count k)"
  unfolding object_count_def by (intro pure_intros)

lemma pure_remove_loop [pure_intros]: "pure (remove_loop n t e it)"
  by (induction n arbitrary: it) (auto intro!: pure_intros)

lemma keepsD: "keeps f \<Longrightarrow> f s = (r, s') \<Longrightarrow> nxt_of s' = nxt_of s \<and> prev_of s' = prev_of s"
  by (simp add: keeps_def)

lemma keeps_pure: "pure f \<Longrightarrow> keeps f"
  by (auto simp: keeps_def pure_def)

lemma keeps_return [keeps_intros]: "keeps (return x)"
  by (intro keeps_pure pure_intros)

lemma keeps_throw [keeps_intros]: "keeps (throw e)"
  by (intro keeps_pure pure_intros)

lemma keeps_bind [keeps_intros]:
  assumes "keeps f" "\<And>x. keeps (g x)"
  shows "keeps (bind f g)"
  using assms unfolding keeps_def bind_def
  by (fastforce split: prod.splits sum.splits)

lemma keeps_if [keeps_intros]:
  "(c \<Longrightarrow> keeps f) \<Longrightarrow> (\<not> c \<Longrightarrow> keeps g) \<Longrightarrow> keeps (if c then f else g)"
  by simp

lemma keeps_set_local_next [keeps_intros]: "keeps (set_local_next p q)"
  by (auto simp: keeps_def set_local_next_def bind_def load_element_def store_element_def
      throw_def nxt_of_def prev_of_def fun_eq_iff split: ptr.splits option.splits)

lemma keeps_set_bucket [keeps_intros]: "keeps (set_bucket t n p)"
  by (auto simp: keeps_def set_bucket_def bind_def load_table_def store_table_def
      throw_def nxt_of_def prev_of_def fun_eq_iff split: ptr.splits option.splits if_splits)

lemma keeps_modify_table:
  assumes "\<And>tb. prev (end_element (f tb)) = prev (end_element tb)"
  shows "keeps (modify_table t f)"
  using assms
  by (auto simp: keeps_def modify_table_def bind_def load_table_def store_table_def
      nxt_of_def prev_of_def fun_eq_iff split: ptr.splits option.splits)

lemma keeps_modify_head [keeps_intros]: "keeps (modify_table t (\<lambda>tb. tb\<lparr>head := p\<rparr>))"
  by (rule keeps_modify_table) simp

lemma keeps_modify_tsize [keeps_intros]: "keeps (modify_table t (\<lambda>tb. tb\<lparr>tsize := g tb\<rparr>))"
  by (rule keeps_modify_table) simp

lemma keeps_set_tab [keeps_intros]: "keeps (set_tab x)"
  by (auto simp: keeps_def set_tab_def nxt_of_def prev_of_def fun_eq_iff split: ptr.splits)

lemma keeps_allocate [keeps_intros]: "keeps allocate"
  by (auto simp: keeps_def allocate_def Let_def nxt_of_def prev_of_def fun_eq_iff
      split: if_splits ptr.splits)

lemma keeps_element_key [keeps_intros]: "keeps (element_key p)"
  by (intro keeps_pure pure_intros)

lemma keeps_object_bucket [keeps_intros]: "keeps (object_bucket k)"
  by (intro keeps_pure pure_intros)

lemma keeps_get_bucket [keeps_intros]: "keeps (get_bucket t n)"
  by (intro keeps_pure pure_intros)

lemma keeps_get_next [keeps_intros]: "keeps (get_next p)"
  by (intro keeps_pure pure_intros)

lemma keeps_get_local_next [keeps_intros]: "keeps (get_local_next p)"
  by (intro keeps_pure pure_intros)

lemma keeps_load_table [keeps_intros]: "keeps (load_table t)"
  by (intro keeps_pure pure_intros)

lemma keeps_constrain_hash [keeps_intros]: "keeps (constrain_hash h n)"
  by (intro keeps_pure pure_intros)

lemma keeps_fuel [keeps_intros]: "keeps fuel"
  by (intro keeps_pure pure_intros)

lemma keeps_remove_loop [keeps_intros]: "keeps (remove_loop n t e it)"
  by (intro keeps_pure pure_intros)

lemma keeps_rehash_loop [keeps_intros]: "keeps (rehash_loop n t e)"
  by (induction n arbitrary: e) (auto intro!: keeps_intros)

text \<open>What the writes to the order links do.\<close>

lemma get_next_Inr:
  "get_next (Elem a) s = (Inr n, s') \<longleftrightarrow> s' = s \<and> nxt_of s a = Some n"
  by (auto simp: get_next_def get_hook_def bind_def load_element_def return_def nxt_of_def
      split: option.splits)

lemma get_prev_Inr:
  "get_prev p s = (Inr q, s') \<longleftrightarrow> s' = s \<and> prev_of s p = Some q"
  by (auto simp: get_prev_def get_hook_def bind_def load_element_def load_table_def return_def
      throw_def prev_of_def split: option.splits ptr.splits)

lemma set_next_Inr:
  assumes "set_next p q s = (Inr u, s')"
  shows "prev_of s' = prev_of s \<and>
         nxt_of s' = (case p of Elem a \<Rightarrow> (nxt_of s)(a \<mapsto> q) | _ \<Rightarrow> nxt_of s)"
  using assms
  by (auto simp: set_next_def bind_def load_element_def load_table_def store_element_def
      store_table_def throw_def nxt_of_def prev_of_def fun_eq_iff
      split: option.splits ptr.splits)

lemma set_prev_Inr:
  assumes "set_prev p q s = (Inr u, s')"
  shows "nxt_of s' = nxt_of s \<and> prev_of s' = (prev_of s)(p \<mapsto> q)"
  using assms
  by (auto simp: set_prev_def bind_def load_element_def load_table_def store_element_def
      store_table_def throw_def nxt_of_def prev_of_def fun_eq_iff
      split: option.splits ptr.splits)

lemma element_destroy_Inr:
  assumes "element_destroy p s = (Inr u, s')"
  shows "\<exists>a. p = Elem a \<and> nxt_of s' = (nxt_of s)(a := None) \<and>
             prev_of s' = (prev_of s)(Elem a := None)"
  using assms
  by (auto simp: element_destroy_def element_key_def deallocate_element_def bind_def
      load_element_def return_def throw_def nxt_of_def prev_of_def fun_eq_iff
      split: option.splits ptr.splits if_splits prod.splits sum.splits)

lemma element_key_Inr:
  assumes "element_key p s = (Inr k, s')"
  shows "s' = s \<and> (\<exists>a. p = Elem a \<and> nxt_of s a \<noteq> None)"
  using assms pureD[OF pure_element_key assms]
  by (auto simp: element_key_def bind_def load_element_def nxt_of_def
      split: option.splits ptr.splits prod.splits sum.splits)

text \<open>Paths along the order links.\<close>

lemma path_cong:
  "(\<And>a. a \<in> set as \<Longrightarrow> f a = g a) \<Longrightarrow> path f p as q = path g p as q"
  by (induction as arbitrary: p) (auto split: option.splits)

lemma path_append:
  "path f p (as @ bs) q \<longleftrightarrow> (\<exists>r. path f p as r \<and> path f r bs q)"
  by (induction as arbitrary: p) (auto split: option.splits)

lemma path_Null: "path f Null as q \<Longrightarrow> as = [] \<and> q = Null"
  by (cases as) auto

lemma path_redirect:
  assumes "path f p as q" "as \<noteq> []" "distinct as"
  shows "path (f(last as \<mapsto> q')) p as q'"
  using assms
proof (induction as arbitrary: p)
  case Nil
  then show ?case by simp
next
  case (Cons a as)
  show ?case
  proof (cases "as = []")
    case True
    with Cons.prems show ?thesis by (auto split: option.splits)
  next
    case False
    with Cons.prems obtain n where n: "f a = Some n" "path f n as q" "p = Elem a"
      by (auto split: option.splits)
    from Cons.prems False have la: "a \<noteq> last as" by auto
    from Cons.prems have "distinct as" by simp
    from Cons.IH[OF n(2) False this] have r: "path (f(last as \<mapsto> q')) n as q'" .
    have "(f(last as \<mapsto> q')) a = Some n" using n la by simp
    with r n(3) False show ?thesis by (simp del: fun_upd_apply)
  qed
qed

subsection \<open>Committing a batch\<close>

text \<open>
  Linking a staged entry before \<open>b\<close> makes it the predecessor of \<open>b\<close>; the only other
  entry whose forward link is written is the former predecessor of \<open>b\<close>.
\<close>

lemma commit_link_Inr:
  assumes run: "commit_link t b h it s = (Inr u, s')"
  shows "prev_of s' b = Some it \<and>
         (\<forall>a. it \<noteq> Elem a \<longrightarrow> prev_of s b \<noteq> Some (Elem a) \<longrightarrow> nxt_of s' a = nxt_of s a)"
proof -
  from run obtain s1 p s1' s2 s3 p' s3' s4 where
    a: "set_next it b s = (Inr (), s1)" and b: "get_prev b s1 = (Inr p, s1')"
    and c: "set_prev it p s1' = (Inr (), s2)" and d: "set_prev b it s2 = (Inr (), s3)"
    and e: "get_prev it s3 = (Inr p', s3')"
    and f: "(if p' \<noteq> Null then set_next p' it
           else modify_table t (\<lambda>tb. tb\<lparr>head := it\<rparr>)) s3' = (Inr (), s4)"
    and g: "bind (load_table t) (\<lambda>tb.
     bind (constrain_hash h (tbucket_count tb)) (\<lambda>bn.
     bind (get_bucket t bn) (\<lambda>local_head.
     bind (set_local_next it local_head) (\<lambda>u.
     set_bucket t bn it)))) s4 = (Inr u, s')"
    unfolding commit_link_def by (auto simp: bind_Inr_iff)
  have "keeps (bind (load_table t) (\<lambda>tb.
     bind (constrain_hash h (tbucket_count tb)) (\<lambda>bn.
     bind (get_bucket t bn) (\<lambda>local_head.
     bind (set_local_next it local_head) (\<lambda>u.
     set_bucket t bn it)))))" by (intro keeps_intros)
  note G = keepsD[OF this g]
  note A = set_next_Inr[OF a]
  from b have B: "s1' = s1" "prev_of s1 b = Some p" by (auto simp: get_prev_Inr)
  note C = set_prev_Inr[OF c]
  note D = set_prev_Inr[OF d]
  from e have E: "s3' = s3" "prev_of s3 it = Some p'" by (auto simp: get_prev_Inr)
  have pb: "prev_of s b = Some p" using A B by simp
  have p': "p' = it \<or> p' = p" using E D C by (auto split: if_splits)
  have F: "prev_of s4 = prev_of s3"
    "\<And>a. p' \<noteq> Elem a \<Longrightarrow> nxt_of s4 a = nxt_of s3 a"
    using f E(1) set_next_Inr[of p' it s3 "()" s4]
      keepsD[OF keeps_modify_head, of t it s3 "Inr ()" s4]
    by (auto split: if_splits ptr.splits)
  have 1: "prev_of s' b = Some it" using G F D by simp
  have 2: "nxt_of s' a = nxt_of s a" if "it \<noteq> Elem a" "prev_of s b \<noteq> Some (Elem a)" for a
  proof -
    from that pb p' have "p' \<noteq> Elem a" by auto
    then have "nxt_of s' a = nxt_of s3 a" using G F by simp
    also have "\<dots> = nxt_of s1 a" using D C B by simp
    also have "\<dots> = nxt_of s a" using A that by (auto split: ptr.splits)
    finally show ?thesis .
  qed
  from 1 2 show ?thesis by blast
qed

text \<open>
  The loop of \<^verbatim>\<open>commit\<close> walks the staged entries once: the size grows by one for
  each entry it links, and it links no more entries than are staged.
\<close>

lemma commit_loop_count:
  assumes "commit_loop n t b it s = (Inr u, s')" "tab (this s) = Some t"
    "pview s = Some (sz, bc)" "path (nxt_of s) it rs Null" "distinct rs"
    "\<forall>p. prev_of s b = Some p \<longrightarrow> p \<notin> Elem ` set rs"
  shows "\<exists>k. k \<le> length rs \<and> pview s' = Some (sz + k, bc)"
  using assms
proof (induction n arbitrary: it s rs sz)
  case 0
  then show ?case by simp
next
  case (Suc n)
  show ?case
  proof (cases "it = Null")
    case True
    with Suc.prems have "s' = s" by simp
    with Suc.prems show ?thesis by (intro exI[of _ 0]) simp
  next
    case False
    with Suc.prems(4) obtain a rs' it' where rs: "rs = a # rs'" "it = Elem a"
      and nx: "nxt_of s a = Some it'" and pa: "path (nxt_of s) it' rs' Null"
      by (cases rs) (auto split: option.splits)
    from Suc.prems(5) rs have dist: "a \<notin> set rs'" "distinct rs'" by auto
    from Suc.prems(1) False obtain i s1 k s2 res s3 where
      a: "get_next it s = (Inr i, s1)" and b: "element_key it s1 = (Inr k, s2)"
      and c: "object_find_impl k s2 = (Inr res, s3)"
      and rest: "(if fst res \<noteq> Null
             then bind (element_destroy it) (\<lambda>u. commit_loop n t b i)
             else bind (commit_link t b (snd res) it) (\<lambda>u.
                  bind (modify_table t (\<lambda>tb. tb\<lparr>tsize := tsize tb + 1\<rparr>)) (\<lambda>u.
                  commit_loop n t b i))) s3 = (Inr u, s')"
      by (auto simp: bind_Inr_iff)
    from a rs nx have i: "i = it'" "s1 = s" by (auto simp: get_next_Inr)
    from b i have s2: "s2 = s" by (auto dest: pureD[OF pure_element_key])
    from c s2 have s3: "s3 = s" by (auto dest: pureD[OF pure_object_find_impl])
    show ?thesis
    proof (cases "fst res \<noteq> Null")
      case True
      with rest s3 i obtain s4 where d: "element_destroy it s = (Inr (), s4)"
        and l: "commit_loop n t b it' s4 = (Inr u, s')"
        by (auto simp: bind_Inr_iff)
      note D = pview_frame[OF frame_element_destroy d]
      from element_destroy_Inr[OF d] rs have E: "nxt_of s4 = (nxt_of s)(a := None)"
        "prev_of s4 = (prev_of s)(Elem a := None)" by auto
      have p4: "path (nxt_of s4) it' rs' Null"
        using pa dist E by (subst path_cong[where g = "nxt_of s"]) auto
      have b4: "\<forall>p. prev_of s4 b = Some p \<longrightarrow> p \<notin> Elem ` set rs'"
        using Suc.prems(6) E rs by (auto split: if_splits)
      from Suc.IH[OF l _ _ p4 dist(2) b4, of sz] D Suc.prems(2,3)
      obtain k where "k \<le> length rs'" "pview s' = Some (sz + k, bc)" by auto
      then show ?thesis using rs by (intro exI[of _ k]) simp
    next
      case False
      with rest s3 i obtain s4 s5 where d: "commit_link t b (snd res) it s = (Inr (), s4)"
        and m: "modify_table t (\<lambda>tb. tb\<lparr>tsize := (\<lambda>n. n + 1) (tsize tb)\<rparr>) s4 = (Inr (), s5)"
        and l: "commit_loop n t b it' s5 = (Inr u, s')"
        by (auto simp: bind_Inr_iff)
      note D = pview_frame[OF frame_commit_link d]
      have "tab (this s4) = Some t" "pview s4 = Some (sz, bc)" using D Suc.prems(2,3) by auto
      note M = pview_modify_tsize[OF m this]
      from m have m': "modify_table t (\<lambda>tb. tb\<lparr>tsize := tsize tb + 1\<rparr>) s4 = (Inr (), s5)"
        by simp
      note K = keepsD[OF keeps_modify_tsize m']
      note L = commit_link_Inr[OF d]
      have nx': "nxt_of s5 a' = nxt_of s a'" if "a' \<in> set rs'" for a'
      proof -
        from that dist rs have "it \<noteq> Elem a'" by auto
        moreover from that Suc.prems(6) rs have "prev_of s b \<noteq> Some (Elem a')" by auto
        ultimately show ?thesis using L K by simp
      qed
      have p5: "path (nxt_of s5) it' rs' Null"
        using pa nx' by (subst path_cong[where g = "nxt_of s"]) auto
      have b5: "\<forall>p. prev_of s5 b = Some p \<longrightarrow> p \<notin> Elem ` set rs'"
        using L K rs dist by auto
      have t5: "tab (this s5) = Some t" using M D Suc.prems(2) by simp
      from Suc.IH[OF l t5 _ p5 dist(2) b5, of "sz + 1"] M
      obtain k where "k \<le> length rs'" "pview s' = Some (sz + 1 + k, bc)" by auto
      then show ?thesis using rs by (intro exI[of _ "Suc k"]) simp
    qed
  qed
qed

subsection \<open>Staging a batch, and what \<^verbatim>\<open>rehash\<close> writes\<close>

text \<open>Staging.\<close>

lemma object_allocate_impl_Inr:
  assumes "object_allocate_impl k b s = (Inr e, s')"
  shows "e = Elem (fresh (mem s)) \<and> fresh (mem s') = Suc (fresh (mem s)) \<and>
         nxt_of s' = (nxt_of s)(fresh (mem s) \<mapsto> Null) \<and>
         prev_of s' = (prev_of s)(Elem (fresh (mem s)) \<mapsto> Null)"
  using assms
  by (auto simp: object_allocate_impl_def bind_Inr_iff allocate_def store_element_def Let_def
      nxt_of_def prev_of_def fun_eq_iff split: if_splits sum.splits ptr.splits)

lemma set_next_fresh: "set_next p q s = (Inr u, s') \<Longrightarrow> fresh (mem s') = fresh (mem s)"
  by (auto simp: set_next_def bind_def load_element_def load_table_def store_element_def
      store_table_def throw_def split: option.splits ptr.splits)

lemma set_prev_fresh: "set_prev p q s = (Inr u, s') \<Longrightarrow> fresh (mem s') = fresh (mem s)"
  by (auto simp: set_prev_def bind_def load_element_def load_table_def store_element_def
      store_table_def throw_def split: option.splits ptr.splits)

lemma undo_range_insert_first:
  assumes "undo_range_insert u (Elem a) s = (Inr u', s')" "u_head u = Null"
  shows "u_head u' = Elem a \<and> u_tail u' = Elem a \<and> fresh (mem s') = fresh (mem s) \<and>
         nxt_of s' = (nxt_of s)(a \<mapsto> Null) \<and> prev_of s' = (prev_of s)(Elem a \<mapsto> Null)"
proof -
  from assms obtain s1 where a: "set_prev (Elem a) Null s = (Inr (), s1)"
    and b: "set_next (Elem a) Null s1 = (Inr (), s')"
    and u: "u' = u\<lparr>u_head := Elem a, u_tail := Elem a, u_n := u_n u + 1\<rparr>"
    by (auto simp: undo_range_insert_def bind_Inr_iff)
  from set_prev_Inr[OF a] set_next_Inr[OF b] set_prev_fresh[OF a] set_next_fresh[OF b] u
  show ?thesis by simp
qed

lemma undo_range_insert_more:
  assumes "undo_range_insert u (Elem a) s = (Inr u', s')" "u_head u \<noteq> Null" "u_tail u = Elem c"
  shows "u_head u' = u_head u \<and> u_tail u' = Elem a \<and> fresh (mem s') = fresh (mem s) \<and>
         nxt_of s' = (nxt_of s)(c \<mapsto> Elem a, a \<mapsto> Null) \<and>
         prev_of s' = (prev_of s)(Elem a \<mapsto> Elem c)"
proof -
  from assms obtain s1 s2 where a: "set_prev (Elem a) (Elem c) s = (Inr (), s1)"
    and b: "set_next (Elem c) (Elem a) s1 = (Inr (), s2)"
    and c: "set_next (Elem a) Null s2 = (Inr (), s')"
    and u: "u' = u\<lparr>u_tail := Elem a, u_n := u_n u + 1\<rparr>"
    by (auto simp: undo_range_insert_def bind_Inr_iff)
  from set_prev_Inr[OF a] set_next_Inr[OF b] set_next_Inr[OF c]
    set_prev_fresh[OF a] set_next_fresh[OF b] set_next_fresh[OF c] u
  show ?thesis by simp
qed

text \<open>
  The entries staged by a bulk insert are new, pairwise distinct, chained by their
  forward links from the head of the staging list to null, one for each pair of the
  input; nothing else has its backward link written.
\<close>

lemma insert_range_loop_staged:
  assumes "insert_range_loop xs u s = (Inr u', s')"
    and "path (nxt_of s) (u_head u) rs Null" "distinct rs" "\<forall>a\<in>set rs. a < fresh (mem s)"
    and "rs \<noteq> [] \<longrightarrow> u_tail u = Elem (last rs)"
  shows "\<exists>rs'. path (nxt_of s') (u_head u') (rs @ rs') Null \<and> distinct (rs @ rs') \<and>
           (\<forall>a\<in>set (rs @ rs'). a < fresh (mem s')) \<and>
           length rs' = length xs \<and> (\<forall>a\<in>set rs'. fresh (mem s) \<le> a) \<and>
           (\<forall>x. x \<notin> Elem ` set (rs @ rs') \<longrightarrow> prev_of s' x = prev_of s x)"
  using assms
proof (induction xs arbitrary: u s rs)
  case Nil
  then show ?case by (intro exI[of _ "[]"]) simp
next
  case (Cons x xs)
  from Cons.prems(1) obtain e s1 u1 s2 where
    al: "object_allocate_impl (fst x) (snd x) s = (Inr e, s1)"
    and ins: "undo_range_insert u e s1 = (Inr u1, s2)"
    and lp: "insert_range_loop xs u1 s2 = (Inr u', s')"
    by (auto simp: bind_Inr_iff unwind_Inr_iff)
  define a where "a = fresh (mem s)"
  note AL = object_allocate_impl_Inr[OF al, folded a_def]
  have e: "e = Elem a" using AL by simp
  have an: "a \<notin> set rs" using Cons.prems(4) a_def by auto
  have st: "path (nxt_of s2) (u_head u1) (rs @ [a]) Null \<and> u_tail u1 = Elem a \<and>
            fresh (mem s2) = Suc a \<and> prev_of s2 = (prev_of s)(Elem a := prev_of s2 (Elem a))"
  proof (cases "rs = []")
    case True
    with Cons.prems(2) have "u_head u = Null" by simp
    from undo_range_insert_first[OF ins[unfolded e] this] AL True
    show ?thesis by (auto simp: fun_eq_iff)
  next
    case False
    with Cons.prems(2) have h: "u_head u \<noteq> Null" by (cases rs) auto
    from False Cons.prems(5) have tl: "u_tail u = Elem (last rs)" by simp
    note I = undo_range_insert_more[OF ins[unfolded e] h tl]
    have "path ((nxt_of s)(last rs \<mapsto> Elem a)) (u_head u) rs (Elem a)"
      using Cons.prems(2) False Cons.prems(3) by (rule path_redirect)
    then have 1: "path (nxt_of s2) (u_head u) rs (Elem a)"
      using I AL an by (subst path_cong[where g = "(nxt_of s)(last rs \<mapsto> Elem a)"]) auto
    have 2: "path (nxt_of s2) (Elem a) [a] Null" using I by simp
    from 1 2 have "path (nxt_of s2) (u_head u) (rs @ [a]) Null"
      unfolding path_append by blast
    then have 3: "path (nxt_of s2) (u_head u1) (rs @ [a]) Null" using I by simp
    have "u_tail u1 = Elem a \<and> fresh (mem s2) = Suc a \<and>
          prev_of s2 = (prev_of s)(Elem a := prev_of s2 (Elem a))"
      using I AL by (auto simp: fun_eq_iff)
    with 3 show ?thesis by blast
  qed
  have d: "distinct (rs @ [a])" using Cons.prems(3) an by simp
  have b: "\<forall>c\<in>set (rs @ [a]). c < fresh (mem s2)"
    using st Cons.prems(4) a_def by auto
  have t: "rs @ [a] \<noteq> [] \<longrightarrow> u_tail u1 = Elem (last (rs @ [a]))" using st by simp
  from Cons.IH[OF lp _ d b t] st obtain rs' where
    r: "path (nxt_of s') (u_head u') ((rs @ [a]) @ rs') Null" "distinct ((rs @ [a]) @ rs')"
      "\<forall>c\<in>set ((rs @ [a]) @ rs'). c < fresh (mem s')"
      "length rs' = length xs" "\<forall>c\<in>set rs'. fresh (mem s2) \<le> c"
      "\<forall>x. x \<notin> Elem ` set ((rs @ [a]) @ rs') \<longrightarrow> prev_of s' x = prev_of s2 x"
    by blast
  have p: "\<forall>x. x \<notin> Elem ` set (rs @ a # rs') \<longrightarrow> prev_of s' x = prev_of s x"
  proof (intro allI impI)
    fix x assume x: "x \<notin> Elem ` set (rs @ a # rs')"
    then have "prev_of s' x = prev_of s2 x" using r(6) by simp
    also have "\<dots> = prev_of s x" using st x by (metis fun_upd_other image_eqI in_set_conv_decomp)
    finally show "prev_of s' x = prev_of s x" .
  qed
  have l: "\<forall>c\<in>set (a # rs'). fresh (mem s) \<le> c" using r(5) st a_def by auto
  show ?case
    using r(1-4) p l by (intro exI[of _ "a # rs'"]) simp
qed

text \<open>What \<^verbatim>\<open>rehash\<close> does to the order links.\<close>

lemma table_construct_links:
  assumes "table_construct n s = (Inr t, s')"
  shows "nxt_of s' = nxt_of s \<and> prev_of s' = (prev_of s)(End t \<mapsto> Null)"
  using assms
  by (auto simp: table_construct_def bind_Inr_iff allocate_def store_table_def Let_def
      nxt_of_def prev_of_def fun_eq_iff split: if_splits ptr.splits)

lemma table_destroy_links:
  assumes "table_destroy t s = (Inr u, s')"
  shows "nxt_of s' = nxt_of s \<and> prev_of s' = (prev_of s)(End t := None)"
  using assms
  by (auto simp: table_destroy_def deallocate_table_def bind_Inr_iff load_table_def
      nxt_of_def prev_of_def fun_eq_iff split: option.splits ptr.splits)

lemma rehash_transplant_links:
  assumes run: "rehash_transplant t old tbo s = (Inr u, s')"
  shows "(\<forall>x. x \<noteq> End t \<longrightarrow> prev_of s' x = prev_of s x) \<and>
         (prev_of s' (End t) = prev_of s (End t) \<or> prev_of s' (End t) = prev_of s (End old)) \<and>
         (\<forall>a. prev_of s (End old) \<noteq> Some (Elem a) \<longrightarrow> nxt_of s' a = nxt_of s a)"
proof (cases "head tbo \<noteq> End old")
  case False
  with run have "modify_table t (\<lambda>tb. tb\<lparr>head := End t\<rparr>) s = (Inr u, s')"
    by (simp add: rehash_transplant_def)
  from keepsD[OF keeps_modify_head this] show ?thesis by simp
next
  case True
  with run obtain s1 p s2 s3 q s4 where
    a: "modify_table t (\<lambda>tb. tb\<lparr>head := head tbo\<rparr>) s = (Inr (), s1)"
    and b: "get_prev (End old) s1 = (Inr p, s2)"
    and c: "set_prev (End t) p s2 = (Inr (), s3)"
    and d: "get_prev (End t) s3 = (Inr q, s4)"
    and e: "set_next q (End t) s4 = (Inr u, s')"
    by (auto simp: rehash_transplant_def bind_Inr_iff)
  note A = keepsD[OF keeps_modify_head a]
  from b have B: "s2 = s1" "prev_of s1 (End old) = Some p" by (auto simp: get_prev_Inr)
  note C = set_prev_Inr[OF c]
  from d have D: "s4 = s3" "prev_of s3 (End t) = Some q" by (auto simp: get_prev_Inr)
  note E = set_next_Inr[OF e]
  have q: "q = p" using D C by simp
  have 1: "\<forall>x. x \<noteq> End t \<longrightarrow> prev_of s' x = prev_of s x" using E D C B A by simp
  have 2: "prev_of s' (End t) = prev_of s (End old)" using E D C B A by simp
  have 3: "\<forall>a. prev_of s (End old) \<noteq> Some (Elem a) \<longrightarrow> nxt_of s' a = nxt_of s a"
    using E D C B A q by (auto split: ptr.splits)
  from 1 2 3 show ?thesis by blast
qed

lemma rehash_create_links:
  assumes r: "rehash_create n s = (Inr u, s')" and al: "table_allocated s"
  shows "(\<forall>a. prev_of s' (Elem a) = prev_of s (Elem a)) \<and>
     (\<forall>t. t \<noteq> fresh (mem s) \<longrightarrow> Some t \<noteq> tab (this s) \<longrightarrow>
          prev_of s' (End t) = prev_of s (End t)) \<and>
     (prev_of s' (End (fresh (mem s))) = Some Null \<or>
      (\<exists>old. tab (this s) = Some old \<and>
         prev_of s' (End (fresh (mem s))) = prev_of s (End old))) \<and>
     (\<forall>a. (\<forall>old. tab (this s) = Some old \<longrightarrow> prev_of s (End old) \<noteq> Some (Elem a)) \<longrightarrow>
          nxt_of s' a = nxt_of s a)"
proof -
  from r obtain t s1 ob s2 s3 s4 tb s5 k s6 uu where
    c: "table_construct n s = (Inr t, s1)" and g: "get_this s1 = (Inr ob, s2)"
    and mid: "(case tab ob of None \<Rightarrow> return ()
           | Some old \<Rightarrow>
               bind (load_table old) (\<lambda>tbo.
               bind (modify_table t (\<lambda>tb. tb\<lparr>tsize := tsize tbo\<rparr>)) (\<lambda>u.
               bind (rehash_transplant t old tbo) (\<lambda>u.
               table_destroy old)))) s2 = (Inr uu, s3)"
    and st: "set_tab (Some t) s3 = (Inr (), s4)"
    and lt: "load_table t s4 = (Inr tb, s5)"
    and fu: "fuel s5 = (Inr k, s6)"
    and lp: "rehash_loop k t (head tb) s6 = (Inr u, s')"
    unfolding rehash_create_def bind_Inr_iff by auto
  note C = table_construct_Inr[OF c]
  note CL = table_construct_links[OF c]
  note G = get_this_Inr[OF g]
  note S = keepsD[OF keeps_set_tab st]
  note L = load_table_Inr[OF lt]
  note F = pureD[OF pure_fuel fu]
  note R = keepsD[OF keeps_rehash_loop lp]
  have t: "t = fresh (mem s)" using C by simp
  have fin: "nxt_of s' = nxt_of s3" "prev_of s' = prev_of s3" using R F L S by simp_all
  show ?thesis
  proof (cases "tab (this s)")
    case None
    with mid G C have s3: "s3 = s1" by simp
    show ?thesis using fin s3 CL t None by simp
  next
    case (Some old)
    with al have old: "old < fresh (mem s)" by (simp add: table_allocated_def)
    then have ne: "old \<noteq> t" using t by simp
    from mid Some G C obtain tbo sa sb sc where
      lo: "load_table old s1 = (Inr tbo, sa)"
      and mo: "modify_table t (\<lambda>tb. tb\<lparr>tsize := tsize tbo\<rparr>) sa = (Inr (), sb)"
      and tr: "rehash_transplant t old tbo sb = (Inr (), sc)"
      and de: "table_destroy old sc = (Inr uu, s3)"
      by (auto simp: bind_Inr_iff)
    note LO = load_table_Inr[OF lo]
    note MO = keepsD[OF keeps_modify_tsize mo]
    note TR = rehash_transplant_links[OF tr]
    note DE = table_destroy_links[OF de]
    have sb: "nxt_of sb = nxt_of s" "prev_of sb = (prev_of s)(End t \<mapsto> Null)"
      using MO LO CL by simp_all
    have 1: "\<forall>a. prev_of s' (Elem a) = prev_of s (Elem a)"
      using fin DE TR sb by simp
    have 2: "\<forall>t'. t' \<noteq> fresh (mem s) \<longrightarrow> Some t' \<noteq> tab (this s) \<longrightarrow>
          prev_of s' (End t') = prev_of s (End t')"
      using fin DE TR sb t Some by simp
    have 3: "prev_of s' (End t) = Some Null \<or> prev_of s' (End t) = prev_of s (End old)"
      using fin DE TR sb ne by auto
    have 4: "\<forall>a. prev_of s (End old) \<noteq> Some (Elem a) \<longrightarrow> nxt_of s' a = nxt_of s a"
      using fin DE TR sb ne by simp
    from 1 2 3 4 show ?thesis using Some t by simp
  qed
qed

lemma object_rehash_cases:
  assumes "object_rehash n0 s = (Inr u, s')"
  shows "s' = s \<or> (\<exists>m. rehash_create m s = (Inr u, s'))"
proof -
  have p: "pure (lower_bound_deref get_primes k)" for k by (intro pure_intros)
  from assms show ?thesis
    unfolding object_rehash_def
    by (auto simp: bind_Inr_iff split: if_splits
        dest!: pureD[OF pure_lower_bound_deref] pureD[OF pure_object_bucket_count]
          pureD[OF pure_object_size] pureD[OF pure_object_max_load_factor]
          pureD[OF pure_ceil_quotient])
qed

lemma object_rehash_links:
  assumes r: "object_rehash n s = (Inr u, s')" and al: "table_allocated s"
  shows "(\<forall>a. prev_of s' (Elem a) = prev_of s (Elem a)) \<and>
     (\<forall>t. Some t \<noteq> tab (this s') \<longrightarrow> Some t \<noteq> tab (this s) \<longrightarrow>
          prev_of s' (End t) = prev_of s (End t)) \<and>
     (\<forall>t. tab (this s') = Some t \<longrightarrow>
          prev_of s' (End t) = Some Null \<or>
          (\<exists>old. tab (this s) = Some old \<and> prev_of s' (End t) = prev_of s (End old))) \<and>
     (\<forall>a. (\<forall>old. tab (this s) = Some old \<longrightarrow> prev_of s (End old) \<noteq> Some (Elem a)) \<longrightarrow>
          nxt_of s' a = nxt_of s a)"
proof -
  from object_rehash_cases[OF r] consider "s' = s" | m where "rehash_create m s = (Inr u, s')"
    by blast
  then show ?thesis
  proof cases
    case 1
    then show ?thesis by simp
  next
    case 2
    from rehash_create_Inr[OF 2 al] have th: "tab (this s') = Some (fresh (mem s))" by auto
    from rehash_create_links[OF 2 al] th show ?thesis by auto
  qed
qed

text \<open>
  \<^verbatim>\<open>commit\<close> adds to the size no more than the number of staged entries, when neither
  the position nor the end hook of the table has one of them as its predecessor.
\<close>

lemma undo_range_commit_count:
  assumes run: "undo_range_commit u pos b s = (Inr u', s')" and ok: "policy_ok s"
    and pa: "path (nxt_of s) (u_head u) rs Null" and di: "distinct rs"
    and hp: "\<forall>p. prev_of s pos = Some p \<longrightarrow> p \<notin> Elem ` set rs"
    and he: "\<forall>old p. tab (this s) = Some old \<longrightarrow> prev_of s (End old) = Some p \<longrightarrow>
               p \<notin> Elem ` set rs"
  shows "\<exists>sz sz' bc bc'. pview s = Some (sz, bc) \<and> pview s' = Some (sz', bc') \<and>
           sz' \<le> sz + length rs"
proof -
  from ok obtain sz bc0 where pv: "pview s = Some (sz, bc0)" and al: "table_allocated s"
    by (auto simp: policy_ok_def load_ok_pview)
  show ?thesis
  proof (cases "u_head u = Null")
    case True
    with run have "s' = s" by (auto simp: undo_range_commit_def)
    with pv show ?thesis by simp
  next
    case False
    with run obtain at_end sa szz sb where
      ae: "(if pos = Null then return True
              else bind deref_tab (\<lambda>t. return (pos = End t))) s = (Inr at_end, sa)"
      and os: "object_size sa = (Inr szz, sb)"
      and rest: "bind object_max_load_factor (\<lambda>f.
        bind (ceil_quotient (of_nat (szz + u_n u)) f) (\<lambda>c.
        bind (object_rehash (max b c)) (\<lambda>x.
        bind deref_tab (\<lambda>t.
        bind fuel (\<lambda>n.
        bind (commit_loop n t (if at_end then End t else pos) (u_head u)) (\<lambda>x.
        return (u\<lparr>u_head := Null\<rparr>))))))) sb = (Inr u', s')"
      unfolding undo_range_commit_def by (auto simp: bind_Inr_iff)
    have sa: "sa = s" using ae by (auto simp: bind_Inr_iff dest: deref_tab_Inr split: if_splits)
    have ae': "at_end \<or> (\<exists>old. tab (this s) = Some old \<and> pos \<noteq> End old \<and> pos \<noteq> Null)"
      using ae by (auto simp: bind_Inr_iff dest: deref_tab_Inr split: if_splits)
    have sb: "sb = s" "szz = sz" using os pv sa by (auto simp: object_size_eq)
    from rest obtain c sc sd t se n sf where
      cq: "ceil_quotient (of_nat (sz + u_n u)) (mf (this s)) s = (Inr c, sc)"
      and rh: "object_rehash (max b c) sc = (Inr (), sd)"
      and dt: "deref_tab sd = (Inr t, se)"
      and fu: "fuel se = (Inr n, sf)"
      and lp: "commit_loop n t (if at_end then End t else pos) (u_head u) sf = (Inr (), s')"
      unfolding sb by (auto simp: bind_Inr_iff object_max_load_factor_eq)
    have sc: "sc = s" using ceil_quotient_Inr[OF cq] by simp
    note DT = deref_tab_Inr[OF dt]
    have sf: "sf = sd" "se = sd" using fu DT by (auto simp: fuel_def)
    from object_rehash_Inr[OF rh[unfolded sc] al] pv obtain bc where
      pvd: "pview sd = Some (sz, bc)" by auto
    note RL = object_rehash_links[OF rh[unfolded sc] al]
    have nx: "nxt_of sd a = nxt_of s a" if "a \<in> set rs" for a
    proof -
      from that he have "\<forall>old. tab (this s) = Some old \<longrightarrow> prev_of s (End old) \<noteq> Some (Elem a)"
        by auto
      with RL show ?thesis by blast
    qed
    have pd: "path (nxt_of sd) (u_head u) rs Null"
      using pa nx by (subst path_cong[where g = "nxt_of s"]) auto
    have en: "\<forall>p. prev_of sd (End t) = Some p \<longrightarrow> p \<notin> Elem ` set rs"
    proof -
      from RL DT have "prev_of sd (End t) = Some Null \<or>
          (\<exists>old. tab (this s) = Some old \<and> prev_of sd (End t) = prev_of s (End old))"
        by blast
      then show ?thesis using he by auto
    qed
    have bd: "\<forall>p. prev_of sd (if at_end then End t else pos) = Some p \<longrightarrow> p \<notin> Elem ` set rs"
    proof (cases at_end)
      case True
      with en show ?thesis by simp
    next
      case False
      with ae' obtain old where o: "tab (this s) = Some old" "pos \<noteq> End old" "pos \<noteq> Null"
        by auto
      show ?thesis
      proof (cases pos)
        case Null
        with o show ?thesis by simp
      next
        case (Elem x)
        with RL have "prev_of sd pos = prev_of s pos" by simp
        with hp False show ?thesis by simp
      next
        case (End t'')
        show ?thesis
        proof (cases "t'' = t")
          case True
          with en End False show ?thesis by simp
        next
          case ne: False
          with RL DT o End have "prev_of sd pos = prev_of s pos" by auto
          with hp False show ?thesis by simp
        qed
      qed
    qed
    from commit_loop_count[OF lp[unfolded sf] _ pvd pd di bd] DT
    obtain k where "k \<le> length rs" "pview s' = Some (sz + k, bc)" by auto
    with pv show ?thesis by simp
  qed
qed

text \<open>A bulk insert before an anchored position adds no more entries than it is given.\<close>

lemma insert_range_count:
  assumes run: "object_insert_range pos xs b s = (Inr u, s')" and ok: "policy_ok s"
    and an: "anchored s pos"
  shows "\<exists>sz sz' bc bc'. pview s = Some (sz, bc) \<and> pview s' = Some (sz', bc') \<and>
           sz' \<le> sz + length xs"
proof -
  from run obtain u1 s1 u2 s2 where st: "insert_range_loop xs undo_range_init s = (Inr u1, s1)"
    and cm: "undo_range_commit u1 pos b s1 = (Inr u2, s2)"
    and ds: "undo_range_destroy u2 s2 = (Inr u, s')"
    by (auto simp: object_insert_range_def bind_Inr_iff unwind_Inr_iff)
  note ST = pview_frame[OF frame_insert_range_loop st]
  note DS = pview_frame[OF frame_undo_range_destroy ds]
  have ok1: "policy_ok s1" using frame_insert_range_loop st ok by (rule policy_ok_frame)
  from insert_range_loop_staged[OF st, of "[]"] obtain rs where
    r: "path (nxt_of s1) (u_head u1) rs Null" "distinct rs" "length rs = length xs"
      "\<forall>a\<in>set rs. fresh (mem s) \<le> a"
      "\<forall>x. x \<notin> Elem ` set rs \<longrightarrow> prev_of s1 x = prev_of s x"
    by (auto simp: undo_range_init_def)
  have old: "p \<notin> Elem ` set rs" if "settled s (Some p)" for p
    using that r(4) by (auto simp: settled_def)
  have hp: "\<forall>p. prev_of s1 pos = Some p \<longrightarrow> p \<notin> Elem ` set rs"
  proof (intro allI impI)
    fix p assume p: "prev_of s1 pos = Some p"
    from an have "pos \<notin> Elem ` set rs" by (intro old) (simp add: anchored_def)
    with r(5) p have "prev_of s pos = Some p" by simp
    with an show "p \<notin> Elem ` set rs" by (intro old) (simp add: anchored_def)
  qed
  have he: "\<forall>old p. tab (this s1) = Some old \<longrightarrow> prev_of s1 (End old) = Some p \<longrightarrow>
               p \<notin> Elem ` set rs"
  proof (intro allI impI)
    fix t p assume t: "tab (this s1) = Some t" and p: "prev_of s1 (End t) = Some p"
    have "End t \<notin> Elem ` set rs" by auto
    with r(5) p have "prev_of s (End t) = Some p" by simp
    with an t ST show "p \<notin> Elem ` set rs" by (intro old) (auto simp: anchored_def)
  qed
  from undo_range_commit_count[OF cm ok1 r(1,2) hp he] obtain sz sz' bc bc' where
    c: "pview s1 = Some (sz, bc)" "pview s2 = Some (sz', bc')" "sz' \<le> sz + length rs"
    by blast
  have "pview s = Some (sz, bc)" "pview s' = Some (sz', bc')" "sz' \<le> sz + length xs"
    using c ST DS r(3) by simp_all
  then show ?thesis by blast
qed

subsection \<open>Erasing\<close>

lemma walk_path: "walk n f p q = Some as \<Longrightarrow> path f p as q"
  by (induction n arbitrary: p as) (auto split: if_splits ptr.splits option.splits)

lemma back_linked_cong:
  "(\<And>a. a \<in> set as \<Longrightarrow> g (Elem a) = g' (Elem a)) \<Longrightarrow>
   back_linked g p as = back_linked g' p as"
  by (induction as arbitrary: p) auto

text \<open>What \<^verbatim>\<open>remove\<close> does to the size and to the order links.\<close>

lemma object_remove_size:
  assumes "object_remove e s = (Inr u, s')"
  shows "\<exists>sz bc. pview s = Some (sz, bc) \<and>
           pview s' = Some (if sz = 0 then 2 ^ 64 - 1 else sz - 1, bc)"
proof -
  from assms obtain t s1 s2 where d: "deref_tab s = (Inr t, s1)"
    and ul: "remove_unlink t e s1 = (Inr (), s2)"
    and m: "modify_table t (\<lambda>tb. tb\<lparr>tsize := (\<lambda>n. if n = 0 then 2 ^ 64 - 1 else n - 1) (tsize tb)\<rparr>) s2
             = (Inr u, s')"
    by (auto simp: object_remove_def bind_Inr_iff)
  note D = deref_tab_Inr[OF d]
  note U = pview_frame[OF frame_remove_unlink ul]
  from modify_tsize_Inr[OF m] obtain n bc where "tinfo s2 t = Some (n, bc)" by auto
  then have pv2: "pview s2 = Some (n, bc)" and t2: "tab (this s2) = Some t"
    using D U by (auto simp: pview_def)
  from pview_modify_tsize[OF m t2 pv2] pv2 D U show ?thesis by auto
qed

lemma remove_unlink_links:
  assumes run: "remove_unlink t (Elem a) s = (Inr u, s')"
  shows "nxt_of s' = nxt_of s \<and> prev_of s' = prev_of s \<or>
         (\<exists>p n. prev_of s (Elem a) = Some p \<and> nxt_of s a = Some n \<and>
            nxt_of s' = (case p of Elem c \<Rightarrow> (nxt_of s)(c \<mapsto> n) | _ \<Rightarrow> nxt_of s) \<and>
            prev_of s' = (prev_of s)(n \<mapsto> p))"
proof -
  from run obtain tb s1 s2 where
    a: "load_table t s = (Inr tb, s1)"
    and b: "(if Elem a = head tb
           then bind (get_next (Elem a)) (\<lambda>n. modify_table t (\<lambda>tb. tb\<lparr>head := n\<rparr>))
           else bind (get_prev (Elem a)) (\<lambda>p.
                bind (get_next (Elem a)) (\<lambda>n.
                bind (set_next p n) (\<lambda>u.
                bind (get_next (Elem a)) (\<lambda>n.
                bind (get_prev (Elem a)) (\<lambda>p.
                set_prev n p)))))) s1 = (Inr (), s2)"
    and c: "bind (element_key (Elem a)) (\<lambda>k.
     bind (object_bucket k) (\<lambda>bn.
     bind (get_bucket t bn) (\<lambda>h.
       if h \<noteq> Elem a
       then if h = End t then throw assertion
            else bind fuel (\<lambda>n.
                 bind (remove_loop n t (Elem a) h) (\<lambda>it.
                 bind (get_local_next (Elem a)) (\<lambda>ln.
                 set_local_next it ln)))
       else bind (get_local_next h) (\<lambda>ln. set_bucket t bn ln)))) s2 = (Inr u, s')"
    unfolding remove_unlink_def by (auto simp: bind_Inr_iff)
  have "keeps (bind (element_key (Elem a)) (\<lambda>k.
     bind (object_bucket k) (\<lambda>bn.
     bind (get_bucket t bn) (\<lambda>h.
       if h \<noteq> Elem a
       then if h = End t then throw assertion
            else bind fuel (\<lambda>n.
                 bind (remove_loop n t (Elem a) h) (\<lambda>it.
                 bind (get_local_next (Elem a)) (\<lambda>ln.
                 set_local_next it ln)))
       else bind (get_local_next h) (\<lambda>ln. set_bucket t bn ln)))))"
    by (intro keeps_intros)
  note C = keepsD[OF this c]
  have s1: "s1 = s" using a by (rule pureD[OF pure_load_table])
  show ?thesis
  proof (cases "Elem a = head tb")
    case True
    with b s1 obtain n sa where "get_next (Elem a) s = (Inr n, sa)"
      and "modify_table t (\<lambda>tb. tb\<lparr>head := n\<rparr>) sa = (Inr (), s2)"
      by (auto simp: bind_Inr_iff)
    then have "nxt_of s2 = nxt_of s \<and> prev_of s2 = prev_of s"
      using keepsD[OF keeps_modify_head, of t n sa "Inr ()" s2] by (auto simp: get_next_Inr)
    with C show ?thesis by simp
  next
    case False
    with b s1 obtain p sa n sb sc n' sd p' se where
      1: "get_prev (Elem a) s = (Inr p, sa)" and 2: "get_next (Elem a) sa = (Inr n, sb)"
      and 3: "set_next p n sb = (Inr (), sc)" and 4: "get_next (Elem a) sc = (Inr n', sd)"
      and 5: "get_prev (Elem a) sd = (Inr p', se)" and 6: "set_prev n' p' se = (Inr (), s2)"
      by (auto simp: bind_Inr_iff)
    from 1 have P: "sa = s" "prev_of s (Elem a) = Some p" by (auto simp: get_prev_Inr)
    from 2 P have N: "sb = s" "nxt_of s a = Some n" by (auto simp: get_next_Inr)
    note S = set_next_Inr[OF 3[unfolded N]]
    from 4 have N': "sd = sc" "nxt_of sc a = Some n'" by (auto simp: get_next_Inr)
    from 5 N' have P': "se = sc" "prev_of sc (Elem a) = Some p'" by (auto simp: get_prev_Inr)
    note T = set_prev_Inr[OF 6[unfolded P']]
    have "n' = n" using N' S N by (auto split: ptr.splits if_splits)
    moreover have "p' = p" using P' S P by simp
    ultimately have "nxt_of s' = (case p of Elem c \<Rightarrow> (nxt_of s)(c \<mapsto> n) | _ \<Rightarrow> nxt_of s)"
      "prev_of s' = (prev_of s)(n \<mapsto> p)"
      using C T S by simp_all
    with P N show ?thesis by blast
  qed
qed

lemma object_remove_links:
  assumes run: "object_remove (Elem a) s = (Inr u, s')"
  shows "nxt_of s' = nxt_of s \<and> prev_of s' = prev_of s \<or>
         (\<exists>p n. prev_of s (Elem a) = Some p \<and> nxt_of s a = Some n \<and>
            nxt_of s' = (case p of Elem c \<Rightarrow> (nxt_of s)(c \<mapsto> n) | _ \<Rightarrow> nxt_of s) \<and>
            prev_of s' = (prev_of s)(n \<mapsto> p))"
proof -
  from run obtain t s1 s2 where d: "deref_tab s = (Inr t, s1)"
    and ul: "remove_unlink t (Elem a) s1 = (Inr (), s2)"
    and m: "modify_table t (\<lambda>tb.
       tb\<lparr>tsize := (if tsize tb = 0 then 2 ^ 64 - 1 else tsize tb - 1)\<rparr>) s2 = (Inr u, s')"
    by (auto simp: object_remove_def bind_Inr_iff)
  have s1: "s1 = s" using d by (rule pureD[OF pure_deref_tab])
  from keepsD[OF keeps_modify_tsize m] remove_unlink_links[OF ul[unfolded s1]]
  show ?thesis by simp
qed

text \<open>
  Erasing a range whose entries are chained forward and backward, and that is no
  longer than the size, does not wrap the size around.
\<close>

lemma erase_range_loop_count:
  assumes "erase_range_loop n first lst s = (Inr r, s')" "pview s = Some (sz, bc)"
    "path (nxt_of s) first as lst" "distinct as" "length as \<le> sz"
    "back_linked (prev_of s) p0 as" "p0 \<notin> Elem ` set as"
  shows "\<exists>sz'. pview s' = Some (sz', bc) \<and> sz' \<le> sz"
  using assms
proof (induction n arbitrary: first s as sz p0)
  case 0
  then show ?case by simp
next
  case (Suc n)
  show ?case
  proof (cases "first = lst")
    case True
    with Suc.prems show ?thesis by simp
  next
    case False
    with Suc.prems(3) obtain a as' n0 where as: "as = a # as'" "first = Elem a"
      and nx: "nxt_of s a = Some n0" and pa: "path (nxt_of s) n0 as' lst"
      by (cases as) (auto split: option.splits)
    from Suc.prems(4) as have dist: "a \<notin> set as'" "distinct as'" by auto
    from Suc.prems(6) as have pr: "prev_of s (Elem a) = Some p0"
      and bl: "back_linked (prev_of s) (Elem a) as'" by auto
    from Suc.prems(7) as have p0: "p0 \<noteq> Elem a" "p0 \<notin> Elem ` set as'" by auto
    from Suc.prems(1) False obtain p s1 s2 s3 where a: "get_next first s = (Inr p, s1)"
      and b: "object_remove first s1 = (Inr (), s2)"
      and c: "element_destroy first s2 = (Inr (), s3)"
      and d: "erase_range_loop n p lst s3 = (Inr r, s')"
      by (auto simp: bind_Inr_iff)
    from a as nx have p: "p = n0" "s1 = s" by (auto simp: get_next_Inr)
    from object_remove_size[OF b[unfolded p]] Suc.prems(2,5) as
    have pv2: "pview s2 = Some (sz - 1, bc)" by auto
    note C = pview_frame[OF frame_element_destroy c]
    from element_destroy_Inr[OF c] as have E: "nxt_of s3 = (nxt_of s2)(a := None)"
      "prev_of s3 = (prev_of s2)(Elem a := None)" by auto
    have pv3: "pview s3 = Some (sz - 1, bc)" using C pv2 by simp
    have len: "length as' \<le> sz - 1" using Suc.prems(5) as by simp
    from object_remove_links[OF b[unfolded p as]]
    consider (same) "nxt_of s2 = nxt_of s" "prev_of s2 = prev_of s"
      | (relinked) "nxt_of s2 = (case p0 of Elem c \<Rightarrow> (nxt_of s)(c \<mapsto> n0) | _ \<Rightarrow> nxt_of s)"
          "prev_of s2 = (prev_of s)(n0 \<mapsto> p0)"
      using pr nx by auto
    then have "\<exists>q. path (nxt_of s3) n0 as' lst \<and> back_linked (prev_of s3) q as' \<and>
                 q \<notin> Elem ` set as'"
    proof cases
      case same
      have 1: "path (nxt_of s3) n0 as' lst"
        using pa dist E same by (subst path_cong[where g = "nxt_of s"]) auto
      have 2: "back_linked (prev_of s3) (Elem a) as'"
        using bl dist E same by (subst back_linked_cong[where g' = "prev_of s"]) auto
      from 1 2 dist show ?thesis by blast
    next
      case relinked
      have 1: "path (nxt_of s3) n0 as' lst"
        using pa dist p0 E relinked
        by (subst path_cong[where g = "nxt_of s"]) (auto split: ptr.splits)
      have 2: "back_linked (prev_of s3) p0 as'"
      proof (cases as')
        case Nil
        then show ?thesis by simp
      next
        case (Cons a2 as'')
        with pa have n0: "n0 = Elem a2" by simp
        from bl Cons have bl2: "back_linked (prev_of s) (Elem a2) as''" by simp
        from dist Cons Suc.prems(4) as have d2: "a2 \<notin> set as''" "a \<notin> set as''" "a2 \<noteq> a"
          by auto
        have "back_linked (prev_of s3) (Elem a2) as''"
          using bl2 d2 E relinked n0
          by (subst back_linked_cong[where g' = "prev_of s"]) auto
        moreover have "prev_of s3 (Elem a2) = Some p0" using E relinked n0 d2 by simp
        ultimately show ?thesis using Cons by simp
      qed
      from 1 2 p0 show ?thesis by blast
    qed
    then obtain q where "path (nxt_of s3) n0 as' lst" "back_linked (prev_of s3) q as'"
      "q \<notin> Elem ` set as'" by blast
    from Suc.IH[OF d[unfolded p] pv3 this(1) dist(2) len this(2,3)]
    obtain sz' where "pview s' = Some (sz', bc)" "sz' \<le> sz - 1" by blast
    then show ?thesis by (intro exI[of _ sz']) simp
  qed
qed

lemma object_erase_range_count:
  assumes run: "object_erase_range first lst s = (Inr r, s')" and ok: "range_ok s first lst"
    and pv: "pview s = Some (sz, bc)"
  shows "\<exists>sz'. pview s' = Some (sz', bc) \<and> sz' \<le> sz"
proof -
  from run obtain n where lp: "erase_range_loop n first lst s = (Inr r, s')"
    by (auto simp: object_erase_range_def bind_Inr_iff fuel_def simp del: erase_range_loop.simps)
  from pv have so: "size_of s = sz" by (simp add: size_of_def object_size_eq)
  from ok obtain as where w: "walk (Suc (fresh (mem s))) (nxt_of s) first lst = Some as"
    and di: "distinct as" and le: "length as \<le> sz"
    and pr: "case prev_of s first of None \<Rightarrow> as = []
             | Some p \<Rightarrow> p \<notin> Elem ` set as \<and> back_linked (prev_of s) p as"
    unfolding range_ok_def so by (auto split: option.splits)
  note pa = walk_path[OF w]
  from pr obtain p0 where "back_linked (prev_of s) p0 as" "p0 \<notin> Elem ` set as"
    by (cases "prev_of s first") auto
  from erase_range_loop_count[OF lp pv pa di le this] show ?thesis .
qed

lemma object_erase_count:
  assumes run: "object_erase pos s = (Inr r, s')" and pv: "pview s = Some (sz, bc)"
    and pos: "0 < sz"
  shows "\<exists>sz'. pview s' = Some (sz', bc) \<and> sz' \<le> sz"
proof -
  from run obtain p s1 s2 where a: "get_next pos s = (Inr p, s1)"
    and b: "object_remove pos s1 = (Inr (), s2)"
    and c: "element_destroy pos s2 = (Inr (), s')"
    by (auto simp: object_erase_def bind_Inr_iff)
  have s1: "s1 = s" using a by (rule pureD[OF pure_get_next])
  from object_remove_size[OF b[unfolded s1]] pv pos have "pview s2 = Some (sz - 1, bc)" by auto
  with pview_frame[OF frame_element_destroy c] show ?thesis by simp
qed

lemma object_erase_key_count:
  assumes run: "object_erase_key k s = (Inr r, s')" and pv: "pview s = Some (sz, bc)"
    and ck: "count_key k s \<le> sz"
  shows "\<exists>sz'. pview s' = Some (sz', bc) \<and> sz' \<le> sz"
proof -
  from run obtain it s1 where f: "object_find k s = (Inr it, s1)"
    and rest: "(if it = (case tab (this s1) of None \<Rightarrow> Null | Some t \<Rightarrow> End t) then return 0
       else bind (object_erase it) (\<lambda>x. return 1)) s1 = (Inr r, s')"
    by (auto simp: object_erase_key_def bind_Inr_iff object_end_eq)
  have s1: "s1 = s" using f by (rule pureD[OF pure_object_find])
  show ?thesis
  proof (cases "it = (case tab (this s) of None \<Rightarrow> Null | Some t \<Rightarrow> End t)")
    case True
    with rest s1 pv show ?thesis by simp
  next
    case False
    with rest s1 obtain x where e: "object_erase it s = (Inr x, s')" by (auto simp: bind_Inr_iff)
    from f s1 False have "object_count k s = (Inr 1, s)"
      by (simp add: object_count_def bind_def object_end_eq return_def)
    with ck have "0 < sz" by (simp add: count_key_def)
    with e pv show ?thesis by (rule object_erase_count)
  qed
qed

section \<open>Batches and assignment\<close>

lemma undo_range_insert_Inr:
  assumes "undo_range_insert u e s = (Inr u', s')"
  shows "u_n u' = u_n u + 1"
  using assms
  by (auto simp: undo_range_insert_def bind_Inr_iff split: if_splits)

lemma insert_range_loop_count:
  assumes "insert_range_loop xs u s = (Inr u', s')"
  shows "u_n u' = u_n u + length xs"
  using assms
proof (induction xs arbitrary: u s)
  case Nil
  then show ?case by simp
next
  case (Cons x xs)
  from Cons.prems obtain e s1 u1 s2 where
    "undo_range_insert u e s1 = (Inr u1, s2)" "insert_range_loop xs u1 s2 = (Inr u', s')"
    by (auto simp: bind_Inr_iff)
  then show ?case using Cons.IH undo_range_insert_Inr by fastforce
qed

lemma commit_loop_Inr:
  assumes "commit_loop n t b it s = (Inr u, s')" "tab (this s) = Some t" "pview s = Some v"
  shows "same_buckets s s'"
  using assms
proof (induction n arbitrary: it s v)
  case 0
  then show ?case by simp
next
  case (Suc n)
  show ?case
  proof (cases "it = Null")
    case True
    with Suc.prems show ?thesis by (simp add: same_buckets_refl)
  next
    case False
    with Suc.prems(1) obtain it' s1 k s2 res s3 where
      a: "get_next it s = (Inr it', s1)" and b: "element_key it s1 = (Inr k, s2)"
      and c: "object_find_impl k s2 = (Inr res, s3)"
      and rest: "(if fst res \<noteq> Null
             then bind (element_destroy it) (\<lambda>u. commit_loop n t b it')
             else bind (commit_link t b (snd res) it) (\<lambda>u.
                  bind (modify_table t (\<lambda>tb. tb\<lparr>tsize := tsize tb + 1\<rparr>)) (\<lambda>u.
                  commit_loop n t b it'))) s3 = (Inr u, s')"
      by (auto simp: bind_Inr_iff)
    note A = pview_frame[OF frame_get_next a]
    note B = pview_frame[OF frame_element_key b]
    note C = pview_frame[OF frame_object_find_impl c]
    have pv3: "pview s3 = Some v" "tab (this s3) = Some t" "this s3 = this s"
      "fresh (mem s) \<le> fresh (mem s3)"
      using A B C Suc.prems by auto
    have "same_buckets s3 s'"
    proof (cases "fst res \<noteq> Null")
      case True
      with rest obtain s4 where d: "element_destroy it s3 = (Inr (), s4)"
        and l: "commit_loop n t b it' s4 = (Inr u, s')"
        by (auto simp: bind_Inr_iff)
      note D = pview_frame[OF frame_element_destroy d]
      have "same_buckets s4 s'" using l D pv3 by (intro Suc.IH[where v = v]) auto
      with frame_element_destroy d show ?thesis by (rule same_buckets_frame_then)
    next
      case False
      with rest obtain s4 s5 where d: "commit_link t b (snd res) it s3 = (Inr (), s4)"
        and m: "modify_table t (\<lambda>tb. tb\<lparr>tsize := (\<lambda>n. n + 1) (tsize tb)\<rparr>) s4 = (Inr (), s5)"
        and l: "commit_loop n t b it' s5 = (Inr u, s')"
        by (auto simp: bind_Inr_iff)
      note D = pview_frame[OF frame_commit_link d]
      obtain sz bc where v: "v = (sz, bc)" by (cases v)
      have "tab (this s4) = Some t" "pview s4 = Some (sz, bc)" using D pv3 v by auto
      note M = pview_modify_tsize[OF m this]
      have 45: "same_buckets s4 s5" using M D pv3 v by (auto simp: same_buckets_def)
      have "same_buckets s5 s'" using l M D pv3 by (intro Suc.IH[where v = "(sz + 1, bc)"]) auto
      with 45 have "same_buckets s4 s'" by (rule same_buckets_trans)
      with frame_commit_link d show ?thesis by (rule same_buckets_frame_then)
    qed
    then show ?thesis using pv3 Suc.prems by (auto simp: same_buckets_def)
  qed
qed

text \<open>
  After a commit the buckets have room for the size before plus the number staged.
\<close>

lemma undo_range_commit_Inr:
  assumes run: "undo_range_commit u pos b s = (Inr u', s')" and ok: "policy_ok s"
  shows "s' = s \<and> u_head u = Null \<or>
         (\<exists>sz sz' bc bc0. pview s = Some (sz, bc0) \<and> pview s' = Some (sz', bc) \<and>
           bc \<in> set get_primes \<and> of_nat (sz + u_n u) \<le> of_nat bc * mf (this s) \<and>
           mf (this s') = mf (this s) \<and> sp (this s') = sp (this s) \<and>
           (tab (this s') = tab (this s) \<or> (\<exists>t'. tab (this s') = Some t' \<and> fresh (mem s) \<le> t')) \<and>
           table_allocated s' \<and> fresh (mem s) \<le> fresh (mem s'))"
proof -
  from ok obtain sz bc0 where pv: "pview s = Some (sz, bc0)" and bcp: "bc0 \<in> set get_primes"
    and f: "0 < mf (this s)" and al: "table_allocated s"
    by (auto simp: policy_ok_def load_ok_pview)
  show ?thesis
  proof (cases "u_head u = Null")
    case True
    with run show ?thesis by (auto simp: undo_range_commit_def)
  next
    case False
    with run obtain at_end sa szz sb where
      ae: "(if pos = Null then return True
              else bind deref_tab (\<lambda>t. return (pos = End t))) s = (Inr at_end, sa)"
      and os: "object_size sa = (Inr szz, sb)"
      and rest: "bind object_max_load_factor (\<lambda>f.
        bind (ceil_quotient (of_nat (szz + u_n u)) f) (\<lambda>c.
        bind (object_rehash (max b c)) (\<lambda>x.
        bind deref_tab (\<lambda>t.
        bind fuel (\<lambda>n.
        bind (commit_loop n t (if at_end then End t else pos) (u_head u)) (\<lambda>x.
        return (u\<lparr>u_head := Null\<rparr>))))))) sb = (Inr u', s')"
      unfolding undo_range_commit_def by (auto simp: bind_Inr_iff)
    have sa: "sa = s" using ae by (auto simp: bind_Inr_iff dest: deref_tab_Inr split: if_splits)
    have sb: "sb = s" "szz = sz" using os pv sa by (auto simp: object_size_eq)
    from rest obtain c sc sd t se n sf where
      cq: "ceil_quotient (of_nat (sz + u_n u)) (mf (this s)) s = (Inr c, sc)"
      and rh: "object_rehash (max b c) sc = (Inr (), sd)"
      and dt: "deref_tab sd = (Inr t, se)"
      and fu: "fuel se = (Inr n, sf)"
      and lp: "commit_loop n t (if at_end then End t else pos) (u_head u) sf = (Inr (), s')"
      unfolding sb by (auto simp: bind_Inr_iff object_max_load_factor_eq)
    note CQ = ceil_quotient_Inr[OF cq]
    have sc: "sc = s" using CQ by simp
    note DT = deref_tab_Inr[OF dt]
    have sf: "sf = sd" "se = sd" using fu DT by (auto simp: fuel_def)
    from object_rehash_Inr[OF rh[unfolded sc] al] pv obtain bc where
      pvd: "pview sd = Some (sz, bc)" and pr: "bc = bc0 \<or> bc \<in> set get_primes"
      and ge: "max b c \<le> bc" and mfd: "mf (this sd) = mf (this s)"
      and spd: "sp (this sd) = sp (this s)"
      and tbd: "tab (this sd) = tab (this s) \<or> tab (this sd) = Some (fresh (mem s))"
      and ald: "table_allocated sd" and frd: "fresh (mem s) \<le> fresh (mem sd)"
      by auto
    have "nat \<lceil>of_nat (sz + u_n u) / mf (this s)\<rceil> \<le> bc" using ge CQ by simp
    with f have room: "of_nat (sz + u_n u) \<le> of_nat bc * mf (this s)" by (rule ceil_bound)
    have "same_buckets sd s'"
      using lp[unfolded sf] DT pvd by (intro commit_loop_Inr) auto
    then obtain sz' where e: "pview s' = Some (sz', bc)" "this s' = this sd"
      "fresh (mem sd) \<le> fresh (mem s')"
      using pvd by (auto simp: same_buckets_def)
    have bcp': "bc \<in> set get_primes" using pr bcp by auto
    have tb': "tab (this s') = tab (this s) \<or> (\<exists>t'. tab (this s') = Some t' \<and> fresh (mem s) \<le> t')"
      using tbd e by auto
    have al': "table_allocated s'" using ald e by (auto simp: table_allocated_def)
    have "\<exists>sz sz' bc bc0. pview s = Some (sz, bc0) \<and> pview s' = Some (sz', bc) \<and>
           bc \<in> set get_primes \<and> of_nat (sz + u_n u) \<le> of_nat bc * mf (this s) \<and>
           mf (this s') = mf (this s) \<and> sp (this s') = sp (this s) \<and>
           (tab (this s') = tab (this s) \<or> (\<exists>t'. tab (this s') = Some t' \<and> fresh (mem s) \<le> t')) \<and>
           table_allocated s' \<and> fresh (mem s) \<le> fresh (mem s')"
      using pv e(1) bcp' room mfd spd tb' al' frd e(2,3)
      by (intro exI[of _ sz] exI[of _ sz'] exI[of _ bc] exI[of _ bc0]) simp
    then show ?thesis ..
  qed
qed

text \<open>
  What a bulk insert leaves: the bucket count is in the table, and the size is within
  what the buckets allow if it grew by no more than the batch.
\<close>

lemma insert_range_room:
  assumes run: "object_insert_range pos xs b s = (Inr u, s')" and ok: "policy_ok s"
  shows "\<exists>sz bc sz' bc'. pview s = Some (sz, bc) \<and> pview s' = Some (sz', bc') \<and>
           bc' \<in> set get_primes \<and>
           (sz' \<le> sz + length xs \<longrightarrow> of_nat sz' \<le> of_nat bc' * mf (this s)) \<and>
           sp (this s') = sp (this s) \<and> mf (this s') = mf (this s) \<and>
           (tab (this s') = tab (this s) \<or> (\<exists>t'. tab (this s') = Some t' \<and> fresh (mem s) \<le> t')) \<and>
           table_allocated s' \<and> fresh (mem s) \<le> fresh (mem s')"
proof -
  from run obtain u1 s1 u2 s2 where st: "insert_range_loop xs undo_range_init s = (Inr u1, s1)"
    and cm: "undo_range_commit u1 pos b s1 = (Inr u2, s2)"
    and ds: "undo_range_destroy u2 s2 = (Inr u, s')"
    by (auto simp: object_insert_range_def bind_Inr_iff unwind_Inr_iff)
  note ST = pview_frame[OF frame_insert_range_loop st]
  note DS = pview_frame[OF frame_undo_range_destroy ds]
  have n: "u_n u1 = length xs"
    using insert_range_loop_count[OF st] by (simp add: undo_range_init_def)
  have ok1: "policy_ok s1" using frame_insert_range_loop st ok by (rule policy_ok_frame)
  from ok obtain sz0 bc0 where pv: "pview s = Some (sz0, bc0)" and bcp: "bc0 \<in> set get_primes"
    and ld: "of_nat sz0 \<le> of_nat bc0 * mf (this s)" and al: "table_allocated s"
    by (auto simp: policy_ok_def load_ok_pview)
  from undo_range_commit_Inr[OF cm ok1]
  consider (unchanged) "s2 = s1"
    | (committed) sz sz' bc bc0' where
      "pview s1 = Some (sz, bc0')" "pview s2 = Some (sz', bc)" "bc \<in> set get_primes"
      "of_nat (sz + u_n u1) \<le> of_nat bc * mf (this s1)" "mf (this s2) = mf (this s1)"
      "sp (this s2) = sp (this s1)"
      "tab (this s2) = tab (this s1) \<or> (\<exists>t'. tab (this s2) = Some t' \<and> fresh (mem s1) \<le> t')"
      "table_allocated s2" "fresh (mem s1) \<le> fresh (mem s2)"
    by blast
  then show ?thesis
  proof cases
    case unchanged
    have "table_allocated s'" using al unchanged ST DS by (auto simp: table_allocated_def)
    then show ?thesis
      using unchanged ST DS pv bcp ld
      by (intro exI[of _ sz0] exI[of _ bc0]) auto
  next
    case a: committed
    have pv': "pview s' = Some (sz', bc)" using DS a by simp
    have e: "sz = sz0" using a(1) ST pv by simp
    have room: "of_nat sz' \<le> of_nat bc * mf (this s)" if "sz' \<le> sz0 + length xs"
    proof -
      from that e n have "(of_nat sz' :: rat) \<le> of_nat (sz + u_n u1)"
        by (simp only: of_nat_le_iff)
      from this a(4) have "of_nat sz' \<le> of_nat bc * mf (this s1)" by (rule order_trans)
      then show ?thesis using ST by simp
    qed
    have al': "table_allocated s'" using a(8) DS by (auto simp: table_allocated_def)
    have tb: "tab (this s') = tab (this s) \<or> (\<exists>t'. tab (this s') = Some t' \<and> fresh (mem s) \<le> t')"
      using a(7) ST DS by auto
    show ?thesis
      using pv pv' a(3) room al' tb a(5,6,9) ST DS
      by (intro exI[of _ sz0] exI[of _ bc0] exI[of _ sz'] exI[of _ bc]) auto
  qed
qed

lemma policy_ok_insert_range:
  assumes run: "object_insert_range pos xs b s = (Inr u, s')" and ok: "policy_ok s"
    and an: "anchored s pos"
  shows "policy_ok s'"
proof -
  from insert_range_room[OF run ok] obtain sz bc sz' bc' where
    a: "pview s = Some (sz, bc)" "pview s' = Some (sz', bc')" "bc' \<in> set get_primes"
    "sz' \<le> sz + length xs \<longrightarrow> of_nat sz' \<le> of_nat bc' * mf (this s)"
    "mf (this s') = mf (this s)" "table_allocated s'"
    by blast
  from insert_range_count[OF run ok an] a(1,2) have "sz' \<le> sz + length xs" by auto
  with a ok show ?thesis by (auto simp: policy_ok_def load_ok_pview)
qed

lemma on_object_Inr:
  assumes "on_object ob f s = (Inr r, s')"
  shows "\<exists>x s1. f (s\<lparr>this := ob\<rparr>) = (Inr x, s1) \<and> r = (x, this s1) \<and> s' = s1\<lparr>this := this s\<rparr>"
  using assms by (auto simp: on_object_def split: prod.splits sum.splits)

lemma tinfo_this_update [simp]: "tinfo (s\<lparr>this := ob\<rparr>) = tinfo s"
  by (simp add: tinfo_def fun_eq_iff)

lemma object_destroy_Inr:
  assumes "object_destroy s = (Inr u, s')"
  shows "this s' = this s \<and> fresh (mem s) \<le> fresh (mem s') \<and>
         (\<forall>t. tab (this s) \<noteq> Some t \<longrightarrow> tinfo s' t = tinfo s t)"
proof (cases "tab (this s)")
  case None
  with assms show ?thesis by (auto simp: object_destroy_def bind_Inr_iff get_this_def)
next
  case (Some t)
  with assms obtain tb s1 n s2 s3 where a: "load_table t s = (Inr tb, s1)"
    and b: "fuel s1 = (Inr n, s2)" and c: "destroy_loop n t (head tb) s2 = (Inr (), s3)"
    and d: "table_destroy t s3 = (Inr u, s')"
    by (auto simp: object_destroy_def bind_Inr_iff get_this_def)
  note A = frameD[OF frame_load_table a]
  note B = frameD[OF frame_fuel b]
  note C = frameD[OF frame_destroy_loop c]
  note D = table_destroy_Inr[OF d]
  show ?thesis using A B C D Some by auto
qed

lemma object_items_pure:
  assumes "on_object other object_items s = (Inr r, s')"
  shows "this s' = this s \<and> tinfo s' = tinfo s \<and> fresh (mem s) \<le> fresh (mem s')"
proof -
  from on_object_Inr[OF assms] obtain x s1 where
    "object_items (s\<lparr>this := other\<rparr>) = (Inr x, s1)" "s' = s1\<lparr>this := this s\<rparr>" by auto
  with frameD[OF frame_object_items this(1)] show ?thesis by auto
qed

text \<open>
  The container that the copy constructor builds: its table, if any, is newly
  allocated, and its size is within what its buckets allow.
\<close>

lemma object_construct_copy_Inr:
  assumes run: "object_construct_copy other st s = (Inr u, s')" and f: "0 < mf other"
  shows "\<exists>sz' bc'.
           pview s' = Some (sz', bc') \<and> bc' \<in> set get_primes \<and>
           of_nat sz' \<le> of_nat bc' * mf other \<and>
           sp (this s') = st \<and> mf (this s') = mf other \<and>
           (tab (this s') = None \<or> (\<exists>t'. tab (this s') = Some t' \<and> fresh (mem s) \<le> t')) \<and>
           table_allocated s' \<and> fresh (mem s) \<le> fresh (mem s')"
proof -
  let ?s0 = "s\<lparr>this := \<lparr>sp = st, tab = None, mf = mf other\<rparr>\<rparr>"
  from run obtain r s1 s2 where it: "on_object other object_items ?s0 = (Inr r, s1)"
    and en: "object_end s1 = (Inr (case tab (this s1) of None \<Rightarrow> Null | Some t \<Rightarrow> End t), s2)"
    and ir: "object_insert_range (case tab (this s1) of None \<Rightarrow> Null | Some t \<Rightarrow> End t)
               (map (\<lambda>x. (fst x, Inr (snd x))) (fst r)) 0 s2 = (Inr u, s')"
    by (auto simp: object_construct_copy_def bind_Inr_iff set_this_def object_end_eq)
  note IT = object_items_pure[OF it]
  have s2: "s2 = s1" using en by (simp add: object_end_eq)
  have th1: "this s1 = \<lparr>sp = st, tab = None, mf = mf other\<rparr>" using IT by simp
  have ok1: "policy_ok s1"
    using th1 f
    by (auto simp: policy_ok_def load_ok_pview pview_def table_allocated_def get_primes_def)
  have pv1: "pview s1 = Some (0, 0)" using th1 by (simp add: pview_def)
  have an: "anchored s1 (case tab (this s1) of None \<Rightarrow> Null | Some t \<Rightarrow> End t)"
    using th1 by (simp add: anchored_def settled_def prev_of_def)
  from insert_range_count[OF ir[unfolded s2] ok1 an] pv1 obtain n' c' where
    cnt: "pview s' = Some (n', c')" "n' \<le> length (fst r)" by auto
  from insert_range_room[OF ir[unfolded s2] ok1] pv1 obtain sz' bc' where
    a: "pview s' = Some (sz', bc')" "bc' \<in> set get_primes"
    "sz' \<le> length (fst r) \<longrightarrow> of_nat sz' \<le> of_nat bc' * mf (this s1)"
    "sp (this s') = sp (this s1)" "mf (this s') = mf (this s1)"
    "tab (this s') = tab (this s1) \<or> (\<exists>t'. tab (this s') = Some t' \<and> fresh (mem s1) \<le> t')"
    "table_allocated s'" "fresh (mem s1) \<le> fresh (mem s')"
    by auto
  from cnt a(1,3) have "of_nat sz' \<le> of_nat bc' * mf (this s1)" by simp
  then show ?thesis
    using a th1 IT
    by (intro exI[of _ sz'] exI[of _ bc']) auto
qed

text \<open>Replacing the container by a freshly built one, after destroying the old one.\<close>

lemma pview_adopt:
  assumes d: "object_destroy s1 = (Inr u, s2)"
    and new: "tab tmp = None \<or> (\<exists>t'. tab tmp = Some t' \<and> tab (this s1) \<noteq> Some t')"
  shows "pview (s2\<lparr>this := tmp\<rparr>) = pview (s1\<lparr>this := tmp\<rparr>) \<and>
         fresh (mem s1) \<le> fresh (mem s2)"
  using new object_destroy_Inr[OF d] by (auto simp: pview_def)

lemma policy_ok_assign_copy:
  assumes run: "object_assign_copy other s = (Inr u, s')" and ok: "policy_ok s"
    and f: "0 < mf other"
  shows "policy_ok s'"
proof -
  from run obtain r s1 s2 where
    c: "on_object (this s) (object_construct_copy other (sp (this s))) s = (Inr r, s1)"
    and d: "object_destroy s1 = (Inr (), s2)" and e: "s' = s2\<lparr>this := snd r\<rparr>"
    by (auto simp: object_assign_copy_def bind_Inr_iff get_this_def set_this_def)
  from on_object_Inr[OF c] obtain x si where
    ci: "object_construct_copy other (sp (this s)) (s\<lparr>this := this s\<rparr>) = (Inr x, si)"
    and r: "r = (x, this si)" and s1: "s1 = si\<lparr>this := this s\<rparr>"
    by auto
  have ss: "s\<lparr>this := this s\<rparr> = s" by simp
  from object_construct_copy_Inr[OF ci[unfolded ss] f] obtain sz' bc' where
    a: "pview si = Some (sz', bc')" "bc' \<in> set get_primes"
    "of_nat sz' \<le> of_nat bc' * mf other"
    "mf (this si) = mf other"
    "tab (this si) = None \<or> (\<exists>t'. tab (this si) = Some t' \<and> fresh (mem s) \<le> t')"
    "table_allocated si" "fresh (mem s) \<le> fresh (mem si)"
    by blast
  from ok have al: "table_allocated s" by (simp add: policy_ok_def)
  have new: "tab (this si) = None \<or> (\<exists>t'. tab (this si) = Some t' \<and> tab (this s1) \<noteq> Some t')"
    using a(5) al s1 by (auto simp: table_allocated_def)
  note P = pview_adopt[OF d new]
  have rback: "s1\<lparr>this := this si\<rparr> = si" using s1 by simp
  have pv': "pview s' = Some (sz', bc')" using P a(1) e r rback by simp
  note a(3)
  moreover have "table_allocated s'"
    using a(6) P e r s1 by (auto simp: table_allocated_def)
  ultimately show ?thesis
    using pv' a(2,4) f e r by (auto simp: policy_ok_def load_ok_pview)
qed

lemma pview_this_tab: "tab ob = tab ob' \<Longrightarrow> pview (s\<lparr>this := ob\<rparr>) = pview (s\<lparr>this := ob'\<rparr>)"
  by (auto simp: pview_def split: option.splits)

lemma policy_ok_assign_move:
  assumes run: "object_assign_move other s = (Inr other', s')" and ok: "policy_ok s"
    and f: "0 < mf other"
    and same: "sp other = sp (this s) \<Longrightarrow>
                 policy_ok (s\<lparr>this := other\<rparr>) \<and> (tab other = None \<or> tab other \<noteq> tab (this s))"
  shows "policy_ok s'"
proof -
  from run obtain r s1 s2 where
    c: "on_object (this s) (object_construct_move other (sp (this s))) s = (Inr r, s1)"
    and d: "object_destroy s1 = (Inr (), s2)" and e: "s' = s2\<lparr>this := snd r\<rparr>"
    by (auto simp: object_assign_move_def bind_Inr_iff get_this_def set_this_def)
  from on_object_Inr[OF c] obtain x si where
    ci: "object_construct_move other (sp (this s)) (s\<lparr>this := this s\<rparr>) = (Inr x, si)"
    and r: "r = (x, this si)" and s1: "s1 = si\<lparr>this := this s\<rparr>"
    by auto
  have ss: "s\<lparr>this := this s\<rparr> = s" by simp
  from ok have al: "table_allocated s" by (simp add: policy_ok_def)
  have rback: "s1\<lparr>this := this si\<rparr> = si" using s1 by simp
  show ?thesis
  proof (cases "sp (this s) = sp other")
    case True
    with ci[unfolded ss] have si: "si = s\<lparr>this := \<lparr>sp = sp (this s), tab = tab other, mf = mf other\<rparr>\<rparr>"
      by (auto simp: object_construct_move_def bind_Inr_iff set_this_def set_tab_def)
    from same True have oko: "policy_ok (s\<lparr>this := other\<rparr>)"
      and ne: "tab other = None \<or> tab other \<noteq> tab (this s)" by auto
    have new: "tab (this si) = None \<or> (\<exists>t'. tab (this si) = Some t' \<and> tab (this s1) \<noteq> Some t')"
      using ne si s1 by (cases "tab other") auto
    note P = pview_adopt[OF d new]
    have "pview s' = pview si" using P e r rback by simp
    also have "\<dots> = pview (s\<lparr>this := other\<rparr>)" unfolding si by (rule pview_this_tab) simp
    finally have pv: "pview s' = pview (s\<lparr>this := other\<rparr>)" .
    have "table_allocated s'"
      using oko P e r si s1 by (auto simp: policy_ok_def table_allocated_def)
    then show ?thesis
      using pv oko e r si by (auto simp: policy_ok_def load_ok_pview)
  next
    case False
    with ci[unfolded ss] obtain ri sa sb where
      it: "on_object other object_items (s\<lparr>this := \<lparr>sp = sp (this s), tab = None, mf = mf other\<rparr>\<rparr>)
             = (Inr ri, sa)"
      and ir: "object_insert_range (case tab (this sa) of None \<Rightarrow> Null | Some t \<Rightarrow> End t)
               (map (\<lambda>x. (fst x, Inr (snd x))) (fst ri)) 0 sa = (Inr (), sb)"
      and sb: "sb = si"
      by (auto simp: object_construct_move_def bind_Inr_iff set_this_def object_end_eq)
    have cc: "object_construct_copy other (sp (this s)) s = (Inr (), si)"
      using it ir sb
      by (cases ri)
         (auto simp: object_construct_copy_def bind_Inr_iff set_this_def object_end_eq)
    from object_construct_copy_Inr[OF cc f] obtain sz' bc' where
      a: "pview si = Some (sz', bc')" "bc' \<in> set get_primes"
      "of_nat sz' \<le> of_nat bc' * mf other"
      "mf (this si) = mf other"
      "tab (this si) = None \<or> (\<exists>t'. tab (this si) = Some t' \<and> fresh (mem s) \<le> t')"
      "table_allocated si" "fresh (mem s) \<le> fresh (mem si)"
      by blast
    have new: "tab (this si) = None \<or> (\<exists>t'. tab (this si) = Some t' \<and> tab (this s1) \<noteq> Some t')"
      using a(5) al s1 by (auto simp: table_allocated_def)
    note P = pview_adopt[OF d new]
    have pv': "pview s' = Some (sz', bc')" using P a(1) e r rback by simp
    note a(3)
    moreover have "table_allocated s'"
      using a(6) P e r s1 by (auto simp: table_allocated_def)
    ultimately show ?thesis
      using pv' a(2,4) f e r by (auto simp: policy_ok_def load_ok_pview)
  qed
qed

section \<open>Bucket count and load factor after an operation\<close>

lemma discard_Inr: "discard f s = (Inr u, s') \<longleftrightarrow> (\<exists>r. f s = (Inr r, s'))"
  by (auto simp: discard_def bind_Inr_iff)

lemma size_of_pview: "pview s = Some (sz, bc) \<Longrightarrow> size_of s = sz"
  by (simp add: size_of_def object_size_eq)

lemma policy_ok_shrunk:
  assumes ok: "policy_ok s" and sb: "same_buckets s s'"
    and pv: "pview s = Some (sz, bc)" and le: "\<exists>sz'. pview s' = Some (sz', bc) \<and> sz' \<le> sz"
  shows "policy_ok s'"
proof (rule policy_ok_same_buckets[OF ok sb])
  fix n n' assume "object_size s = (Inr n, s)" "object_size s' = (Inr n', s')"
  with pv le show "n' \<le> n" by (auto simp: object_size_eq)
qed




section \<open>\<^verbatim>\<open>rehash\<close> and the minimum bucket count\<close>



end
